theory Spec2Isabelle
  imports Main
begin

section \<open>Statistics (src/utils/stats.py)\<close>

text \<open>
  An instant is an integer: microseconds since the epoch in UTC, the resolution of Python's
  \<^verbatim>\<open>datetime\<close>. Comparing two timezone-aware datetimes compares their instants.
  \<^verbatim>\<open>Europe/Moscow\<close> is a fixed offset of three hours for every wall-clock reading the
  program can take (no daylight saving since 2014), so midnight of the current Moscow day is
  computed with that offset.
\<close>

definition day_us :: int where
  "day_us = 86400000000"

definition msk_offset_us :: int where
  "msk_offset_us = 10800000000"

definition today_msk :: "int \<Rightarrow> int" where
  \<comment> \<open>\<^verbatim>\<open>datetime.now(moscow_tz).replace(hour=0, minute=0, second=0, microsecond=0)\<close>\<close>
  "today_msk now = ((now + msk_offset_us) div day_us) * day_us - msk_offset_us"

record statistics =
  total_success :: int
  total_errors :: int
  start_time :: int
  daily_success :: int
  daily_errors :: int
  daily_reset_date :: "int option"
  report_interval :: int

definition check_and_reset_daily :: "int \<Rightarrow> statistics \<Rightarrow> statistics" where
  \<comment> \<open>\<^verbatim>\<open>_check_and_reset_daily\<close>; the argument is the reading of the wall clock.\<close>
  "check_and_reset_daily now s =
     (let today = today_msk now in
      if (case daily_reset_date s of None \<Rightarrow> True | Some d \<Rightarrow> d < today)
      then s\<lparr>daily_success := 0, daily_errors := 0, daily_reset_date := Some today\<rparr>
      else s)"

definition new_statistics :: "int \<Rightarrow> statistics" where
  \<comment> \<open>\<^verbatim>\<open>Statistics.__init__\<close>\<close>
  "new_statistics now =
     check_and_reset_daily now
       \<lparr>total_success = 0, total_errors = 0, start_time = now,
        daily_success = 0, daily_errors = 0, daily_reset_date = None,
        report_interval = 10\<rparr>"

definition increment_success :: "int \<Rightarrow> statistics \<Rightarrow> statistics" where
  "increment_success now s =
     (let s1 = check_and_reset_daily now s in
      s1\<lparr>total_success := total_success s1 + 1, daily_success := daily_success s1 + 1\<rparr>)"

definition increment_error :: "int \<Rightarrow> statistics \<Rightarrow> statistics" where
  "increment_error now s =
     (let s1 = check_and_reset_daily now s in
      s1\<lparr>total_errors := total_errors s1 + 1, daily_errors := daily_errors s1 + 1\<rparr>)"

definition reset_daily_stats :: "int \<Rightarrow> statistics \<Rightarrow> statistics" where
  "reset_daily_stats now s =
     s\<lparr>daily_success := 0, daily_errors := 0, daily_reset_date := Some (today_msk now)\<rparr>"

text \<open>A sequence of calls, each made at the wall-clock reading paired with it.\<close>

datatype stat_call = IncrementSuccess | IncrementError

fun apply_call :: "statistics \<Rightarrow> int \<times> stat_call \<Rightarrow> statistics" where
  "apply_call s (now, IncrementSuccess) = increment_success now s"
| "apply_call s (now, IncrementError) = increment_error now s"

definition run_calls :: "statistics \<Rightarrow> (int \<times> stat_call) list \<Rightarrow> statistics" where
  "run_calls s calls = foldl apply_call s calls"

definition calls_since :: "int \<Rightarrow> stat_call \<Rightarrow> (int \<times> stat_call) list \<Rightarrow> int" where
  \<comment> \<open>how many calls of one kind were made at or after an instant\<close>
  "calls_since boundary c calls =
     int (length (filter (\<lambda>(t, k). k = c \<and> boundary \<le> t) calls))"

definition calls_of :: "stat_call \<Rightarrow> (int \<times> stat_call) list \<Rightarrow> int" where
  "calls_of c calls = int (length (filter (\<lambda>(t, k). k = c) calls))"

text \<open>
  The state reached by a run whose clock readings never go backwards: totals count the whole
  run, the daily counters count the calls at or after the midnight of the last reading, and
  the stored boundary is that midnight.
\<close>

definition counts_at :: "int \<Rightarrow> (int \<times> stat_call) list \<Rightarrow> statistics \<Rightarrow> bool" where
  "counts_at p calls s \<longleftrightarrow>
     total_success s = calls_of IncrementSuccess calls \<and>
     total_errors s = calls_of IncrementError calls \<and>
     daily_success s = calls_since (today_msk p) IncrementSuccess calls \<and>
     daily_errors s = calls_since (today_msk p) IncrementError calls \<and>
     daily_reset_date s = Some (today_msk p)"

definition counts_hold :: "int \<Rightarrow> (int \<times> stat_call) list \<Rightarrow> statistics \<Rightarrow> bool" where
  "counts_hold t0 calls s \<longleftrightarrow> counts_at (last (t0 # map fst calls)) calls s"


section \<open>Python values, exceptions and the observable effects (src/vk/api.py)\<close>

text \<open>
  A decoded JSON value. Python's \<^verbatim>\<open>None\<close> is \<open>JNull\<close>; a \<^verbatim>\<open>dict\<close> is an association list
  read with \<open>map_of\<close>. The body of a response is a JSON object, as the source's annotation
  \<^verbatim>\<open>Dict\<close> says.
\<close>

datatype json = JNull | JBool bool | JInt int | JStr string | JList "json list"
  | JDict "(string \<times> json) list"

type_synonym jdict = "(string \<times> json) list"

text \<open>
  The instances of Python's \<^verbatim>\<open>Exception\<close> that the code can meet. \<open>RequestException\<close> is
  \<^verbatim>\<open>requests.RequestException\<close>, a subclass of \<^verbatim>\<open>IOError\<close>, which is \<^verbatim>\<open>OSError\<close>;
  \<open>FileNotFoundError\<close> is a subclass of \<^verbatim>\<open>OSError\<close> too.
\<close>

datatype exn = KeyError string | NameError string | ValueError string | TypeError string
  | IndexError string | AttributeError string | RequestException string
  | FileNotFoundError string | OSError string | RuntimeError string

fun is_KeyError :: "exn \<Rightarrow> bool" where
  "is_KeyError (KeyError _) = True"
| "is_KeyError _ = False"

fun is_RequestException :: "exn \<Rightarrow> bool" where
  "is_RequestException (RequestException _) = True"
| "is_RequestException _ = False"

fun is_FileNotFoundError :: "exn \<Rightarrow> bool" where
  "is_FileNotFoundError (FileNotFoundError _) = True"
| "is_FileNotFoundError _ = False"

fun is_OSError :: "exn \<Rightarrow> bool" where
  "is_OSError (OSError _) = True"
| "is_OSError (FileNotFoundError _) = True"
| "is_OSError (RequestException _) = True"
| "is_OSError _ = False"

text \<open>
  What a coroutine can raise: an instance of \<^verbatim>\<open>Exception\<close>, or one of the exceptions outside
  \<^verbatim>\<open>Exception\<close> (subclasses of \<^verbatim>\<open>BaseException\<close> only) that can reach it:
  \<^verbatim>\<open>asyncio.CancelledError\<close>, raised at an \<^verbatim>\<open>await\<close> of a cancelled task, and the \<^verbatim>\<open>SystemExit\<close> of
  \<^verbatim>\<open>sys.exit(0)\<close> in the signal handler \<^verbatim>\<open>shutdown_handler\<close> of src/main.py. A handler
  \<^verbatim>\<open>except C\<close> for a class \<^verbatim>\<open>C\<close> of exceptions catches the instances of \<^verbatim>\<open>C\<close>, so
  \<^verbatim>\<open>except Exception\<close> catches none of the latter.
\<close>

datatype signal = CancelledError | SystemExit

datatype raised = Exc exn | Sig signal

fun is_Exception :: "raised \<Rightarrow> bool" where
  "is_Exception (Exc e) = True"
| "is_Exception (Sig g) = False"

fun caught_by :: "(exn \<Rightarrow> bool) \<Rightarrow> raised \<Rightarrow> bool" where
  "caught_by is_C (Exc e) = is_C e"
| "caught_by is_C (Sig g) = False"

fun truthy :: "json \<Rightarrow> bool" where
  "truthy JNull = False"
| "truthy (JBool b) = b"
| "truthy (JInt n) = (n \<noteq> 0)"
| "truthy (JStr s) = (s \<noteq> [])"
| "truthy (JList xs) = (xs \<noteq> [])"
| "truthy (JDict kvs) = (kvs \<noteq> [])"

definition has_key :: "string \<Rightarrow> jdict \<Rightarrow> bool" where
  \<comment> \<open>\<^verbatim>\<open>k in d\<close>\<close>
  "has_key k d = (map_of d k \<noteq> None)"

definition getitem :: "jdict \<Rightarrow> string \<Rightarrow> exn + json" where
  \<comment> \<open>\<^verbatim>\<open>d[k]\<close>\<close>
  "getitem d k = (case map_of d k of None \<Rightarrow> Inl (KeyError k) | Some v \<Rightarrow> Inr v)"

definition dict_get :: "jdict \<Rightarrow> string \<Rightarrow> json" where
  \<comment> \<open>\<^verbatim>\<open>d.get(k)\<close>\<close>
  "dict_get d k = (case map_of d k of None \<Rightarrow> JNull | Some v \<Rightarrow> v)"

fun subscript_str :: "json \<Rightarrow> string \<Rightarrow> exn + json" where
  \<comment> \<open>\<^verbatim>\<open>v[k]\<close> for a string \<^verbatim>\<open>k\<close> and any JSON value \<^verbatim>\<open>v\<close>\<close>
  "subscript_str (JDict d) k = getitem d k"
| "subscript_str _ k = Inl (TypeError k)"

fun subscript_zero :: "json \<Rightarrow> exn + json" where
  \<comment> \<open>\<^verbatim>\<open>v[0]\<close>; the keys of a JSON object are strings, so \<^verbatim>\<open>0\<close> is never one of them\<close>
  "subscript_zero (JList []) = Inl (IndexError ''0'')"
| "subscript_zero (JList (x # xs)) = Inr x"
| "subscript_zero (JStr []) = Inl (IndexError ''0'')"
| "subscript_zero (JStr (c # cs)) = Inr (JStr [c])"
| "subscript_zero (JDict d) = Inl (KeyError ''0'')"
| "subscript_zero _ = Inl (TypeError ''0'')"

fun error_branch :: "json \<Rightarrow> exn" where
  \<comment> \<open>The branch taken when a VK response has the key \<^verbatim>\<open>error\<close>:
      \<^verbatim>\<open>error_msg = resp["error"].get("error_msg", "Unknown error")\<close> needs a dict, and the
      \<^verbatim>\<open>raise VK...Error(error_msg, error_code=error_code, ...)\<close> that follows reads the name
      \<^verbatim>\<open>error_code\<close>, which no scope of the module binds.\<close>
  "error_branch (JDict d) = NameError ''error_code''"
| "error_branch _ = AttributeError ''get''"

text \<open>
  \<^verbatim>\<open>f"photo{photo_data['owner_id']}_{photo_data['id']}"\<close> is kept as its two interpolated
  values.
\<close>

datatype attachment = PhotoAttachment json json

datatype event =
    RateLimitSleep int  \<comment> \<open>\<^verbatim>\<open>asyncio.sleep(delay)\<close> in \<^verbatim>\<open>_rate_limit\<close>, microseconds\<close>
  | RateLimitRecord int  \<comment> \<open>\<^verbatim>\<open>self._request_times.append(datetime.now())\<close>\<close>
  | ValidateFile string  \<comment> \<open>the call of \<^verbatim>\<open>validator.validate_image_file(file_path)\<close>\<close>
  | GetUploadServer  \<comment> \<open>the request to \<^verbatim>\<open>photos.getWallUploadServer\<close>\<close>
  | UploadAttempt nat  \<comment> \<open>one pass of the \<^verbatim>\<open>try\<close> block of \<^verbatim>\<open>_upload_image\<close>\<close>
  | BackoffSleep nat  \<comment> \<open>\<^verbatim>\<open>time.sleep(wait_time)\<close>, seconds\<close>
  | SaveWallPhoto json json json  \<comment> \<open>the request to \<^verbatim>\<open>photos.saveWallPhoto\<close>\<close>
  | WallPost attachment string  \<comment> \<open>the request to \<^verbatim>\<open>wall.post\<close>\<close>
  | RemoveFile string  \<comment> \<open>\<^verbatim>\<open>os.remove(file_path)\<close>\<close>



fun is_wall_post :: "event \<Rightarrow> bool" where
  "is_wall_post (WallPost _ _) = True"
| "is_wall_post _ = False"

fun is_remove :: "event \<Rightarrow> bool" where
  "is_remove (RemoveFile _) = True"
| "is_remove _ = False"

text \<open>
  The state a call works on: the \<^verbatim>\<open>_request_times\<close> deque of the instance, the last reading
  of the wall clock (microseconds), the files on disk with their sizes, and the effects so far.
\<close>

record vk_state =
  request_times :: "int list"
  clock :: int
  disk :: "string \<rightharpoonup> int"
  trace :: "event list"

definition new_vkapi :: "int \<Rightarrow> (string \<rightharpoonup> int) \<Rightarrow> vk_state" where
  "new_vkapi now files = \<lparr>request_times = [], clock = now, disk = files, trace = []\<rparr>"

definition emit :: "event list \<Rightarrow> vk_state \<Rightarrow> vk_state" where
  "emit es s = s\<lparr>trace := trace s @ es\<rparr>"

text \<open>
  What the world answers during one call: the time that passes before \<^verbatim>\<open>_rate_limit\<close>
  reads the clock and between that reading and the one it records (beyond the sleep it asked
  for), failures of the file system, the outcome of each request (an exception, or the
  decoded body), and what the awaited \<^verbatim>\<open>os.remove\<close> of the cleanup raises, if anything: an
  exception of the file system, or the cancellation of the task while it waits.
\<close>

record world =
  rl_gap :: nat
  rl_lag :: nat
  exists_fault :: "exn option"
  stat_fault :: "exn option"
  remove_fault :: "raised option"
  upload_server_response :: "exn + jdict"
  upload_response :: "nat \<Rightarrow> exn + jdict"
  save_response :: "exn + jdict"
  group_id_int :: "exn + int"
  wall_post_response :: "exn + jdict"

text \<open>
  The constants of \<^verbatim>\<open>src/config/constants.py\<close>, which is not among the sources, and
  \<^verbatim>\<open>Path(file_path).suffix.lower()\<close> of the standard library, are parameters.
\<close>

record constants =
  allowed_extensions :: "string list"
  min_file_size_bytes :: int
  max_file_size_bytes :: int
  suffix_lower :: "string \<Rightarrow> string"

type_synonym 'a action = "vk_state \<Rightarrow> (exn + 'a) \<times> vk_state"

type_synonym 'a call = "vk_state \<Rightarrow> (raised + 'a) \<times> vk_state"

definition lift :: "'a action \<Rightarrow> 'a call" where
  \<comment> \<open>a function that raises instances of \<^verbatim>\<open>Exception\<close> only, as a call\<close>
  "lift f s = (case f s of (Inl e, s') \<Rightarrow> (Inl (Exc e), s') | (Inr v, s') \<Rightarrow> (Inr v, s'))"


subsection \<open>\<^verbatim>\<open>_rate_limit\<close>\<close>

definition deque_append :: "int \<Rightarrow> int list \<Rightarrow> int list" where
  \<comment> \<open>\<^verbatim>\<open>append\<close> on a \<^verbatim>\<open>deque(maxlen=3)\<close>: a full deque drops its leftmost entry\<close>
  "deque_append x xs = (if length xs = 3 then tl xs @ [x] else xs @ [x])"

definition rate_limit_delay :: "int \<Rightarrow> int list \<Rightarrow> int option" where
  \<comment> \<open>the sleep \<^verbatim>\<open>_rate_limit\<close> asks for when it reads the clock at \<open>now\<close>; 1.0 s and 1.1 s in
      microseconds\<close>
  "rate_limit_delay now window =
     (if length window = 3
      then (let oldest = hd window; elapsed = now - oldest
            in if elapsed < 1000000 then Some (1100000 - elapsed) else None)
      else None)"

definition rate_limit :: "nat \<Rightarrow> nat \<Rightarrow> vk_state \<Rightarrow> vk_state" where
  "rate_limit gap lag s =
     (let now = clock s + int gap in
      case rate_limit_delay now (request_times s) of
        None \<Rightarrow>
          (let now' = now + int lag
           in s\<lparr>request_times := deque_append now' (request_times s), clock := now',
                trace := trace s @ [RateLimitRecord now']\<rparr>)
      | Some delay \<Rightarrow>
          (let now' = now + delay + int lag
           in s\<lparr>request_times := deque_append now' (request_times s), clock := now',
                trace := trace s @ [RateLimitSleep delay, RateLimitRecord now']\<rparr>))"

definition rate_limit_calls :: "(nat \<times> nat) list \<Rightarrow> vk_state \<Rightarrow> vk_state" where
  \<comment> \<open>sequential calls, each with the time that passes before and inside it\<close>
  "rate_limit_calls calls s = foldl (\<lambda>s (gap, lag). rate_limit gap lag s) s calls"

definition recorded :: "event list \<Rightarrow> int list" where
  \<comment> \<open>the timestamps at which requests were let through, in order\<close>
  "recorded es = concat (map (\<lambda>e. case e of RateLimitRecord t \<Rightarrow> [t] | _ \<Rightarrow> []) es)"

definition last3 :: "int list \<Rightarrow> int list" where
  "last3 h = drop (length h - 3) h"

definition limiter_inv :: "int list \<Rightarrow> vk_state \<Rightarrow> bool" where
  \<comment> \<open>\<open>h\<close> is every timestamp recorded so far: the deque holds its last three entries, it is
      in order and not ahead of the clock, and each entry is at least one second after the
      third entry before it\<close>
  "limiter_inv h s \<longleftrightarrow>
     recorded (trace s) = h \<and> request_times s = last3 h \<and> sorted h \<and>
     (\<forall>x \<in> set h. x \<le> clock s) \<and>
     (\<forall>i. i + 3 < length h \<longrightarrow> h ! i + 1000000 \<le> h ! (i + 3))"

definition started_within :: "int \<Rightarrow> int list \<Rightarrow> nat" where
  \<comment> \<open>how many requests started in the one-second window that opens at \<open>t\<close>\<close>
  "started_within t ts = length (filter (\<lambda>x. t \<le> x \<and> x < t + 1000000) ts)"


subsection \<open>\<^verbatim>\<open>FileValidator.validate_image_file\<close> (src/utils/file_validator.py)\<close>

definition path_exists :: "world \<Rightarrow> string \<Rightarrow> vk_state \<Rightarrow> exn + bool" where
  "path_exists w p s =
     (case exists_fault w of Some e \<Rightarrow> Inl e | None \<Rightarrow> Inr (p \<in> dom (disk s)))"

definition stat_size :: "world \<Rightarrow> string \<Rightarrow> vk_state \<Rightarrow> exn + int" where
  "stat_size w p s =
     (case stat_fault w of
        Some e \<Rightarrow> Inl e
      | None \<Rightarrow> (case disk s p of None \<Rightarrow> Inl (FileNotFoundError p) | Some n \<Rightarrow> Inr n))"

definition validate_image_file :: "constants \<Rightarrow> world \<Rightarrow> string \<Rightarrow> bool action" where
  "validate_image_file c w p s =
     (let s1 = emit [ValidateFile p] s in
      case path_exists w p s1 of
        Inl e \<Rightarrow> (Inl e, s1)
      | Inr present \<Rightarrow>
          if \<not> present then (Inr False, s1)
          else if suffix_lower c p \<notin> set (allowed_extensions c) then (Inr False, s1)
          else (case stat_size w p s1 of
                  Inl e \<Rightarrow> (Inr False, s1)  \<comment> \<open>\<^verbatim>\<open>except Exception: return False\<close>\<close>
                | Inr file_size \<Rightarrow>
                    if file_size < min_file_size_bytes c then (Inr False, s1)
                    else if file_size > max_file_size_bytes c then (Inr False, s1)
                    else (Inr True, s1)))"


subsection \<open>The four requests and the cleanup\<close>

text \<open>
  The handlers \<^verbatim>\<open>except KeyError: ... raise\<close> and \<^verbatim>\<open>except Exception: ... raise\<close> of the
  three API methods log and raise the same exception again, so an exception raised in the
  body is the method's result.
\<close>

definition get_upload_url :: "world \<Rightarrow> json action" where
  "get_upload_url w s =
     (let s1 = emit [GetUploadServer] s in
      case upload_server_response w of
        Inl e \<Rightarrow> (Inl e, s1)
      | Inr resp \<Rightarrow>
          if has_key ''error'' resp then (Inl (error_branch (dict_get resp ''error'')), s1)
          else (case getitem resp ''response'' of
                  Inl e \<Rightarrow> (Inl e, s1)
                | Inr r \<Rightarrow> (subscript_str r ''upload_url'', s1)))"

definition photo_missing :: "jdict \<Rightarrow> bool" where
  \<comment> \<open>\<^verbatim>\<open>"photo" not in result or not result["photo"]\<close>\<close>
  "photo_missing result \<longleftrightarrow> \<not> has_key ''photo'' result \<or> \<not> truthy (dict_get result ''photo'')"

definition empty_photo_error :: exn where
  "empty_photo_error = ValueError ''Empty photo parameter received after all retries''"

fun upload_loop ::
  "world \<Rightarrow> nat \<Rightarrow> nat list \<Rightarrow> exn option \<Rightarrow> (json \<times> json \<times> json) action" where
  \<comment> \<open>\<^verbatim>\<open>for attempt in range(1, max_retries + 1)\<close> over the attempts still to make, and the
      code after the loop\<close>
  "upload_loop w max_retries [] last_error s =
     (Inl (case last_error of
             Some e \<Rightarrow> e
           | None \<Rightarrow> ValueError ''Upload failed after all retries''), s)"
| "upload_loop w max_retries (attempt # rest) last_error s =
     (let s1 = emit [UploadAttempt attempt] s in
      case upload_response w attempt of
        Inr result \<Rightarrow>
          if photo_missing result then
            (if attempt < max_retries
             then upload_loop w max_retries rest (Some empty_photo_error)
                    (emit [BackoffSleep (2 ^ (attempt - 1))] s1)
             else \<comment> \<open>the \<^verbatim>\<open>ValueError\<close> raised here is caught by \<^verbatim>\<open>except Exception\<close> of the
                      same \<^verbatim>\<open>try\<close>, which raises it again on the last attempt\<close>
                  (Inl empty_photo_error, s1))
          else (Inr (dict_get result ''server'', dict_get result ''photo'',
                     dict_get result ''hash''), s1)
      | Inl e \<Rightarrow>
          if is_RequestException e then
            (if attempt < max_retries
             then upload_loop w max_retries rest (Some e)
                    (emit [BackoffSleep (2 ^ (attempt - 1))] s1)
             else (Inl e, s1))
          else
            (if attempt < max_retries
             then upload_loop w max_retries rest (Some e)
                    (emit [BackoffSleep (2 ^ (attempt - 1))] s1)
             else (Inl e, s1)))"

definition upload_image ::
  "world \<Rightarrow> json \<Rightarrow> string \<Rightarrow> nat \<Rightarrow> (json \<times> json \<times> json) action" where
  "upload_image w upload_url file_path max_retries s =
     upload_loop w max_retries [1..<max_retries + 1] None s"

definition upload_ok :: "exn + jdict \<Rightarrow> bool" where
  \<comment> \<open>the attempt got a body whose \<^verbatim>\<open>photo\<close> is present and not empty\<close>
  "upload_ok r = (case r of Inl e \<Rightarrow> False | Inr result \<Rightarrow> \<not> photo_missing result)"

definition empty_photo_response :: "exn + jdict \<Rightarrow> bool" where
  \<comment> \<open>the attempt got a body whose \<^verbatim>\<open>photo\<close> is missing or empty\<close>
  "empty_photo_response r = (case r of Inl e \<Rightarrow> False | Inr result \<Rightarrow> photo_missing result)"

definition retry_error :: "exn + jdict \<Rightarrow> exn" where
  \<comment> \<open>what \<^verbatim>\<open>last_error\<close> becomes after an attempt that is retried\<close>
  "retry_error r = (case r of Inl e \<Rightarrow> e | Inr result \<Rightarrow> empty_photo_error)"

definition attempts_trace :: "nat \<Rightarrow> nat \<Rightarrow> event list" where
  \<comment> \<open>attempts \<open>a\<close> to \<open>k\<close>, each but the last followed by its back-off sleep\<close>
  "attempts_trace a k =
     concat (map (\<lambda>j. [UploadAttempt j, BackoffSleep (2 ^ (j - 1))]) [a..<k]) @ [UploadAttempt k]"

definition post_save_wall_photo :: "world \<Rightarrow> json \<Rightarrow> json \<Rightarrow> json \<Rightarrow> attachment action" where
  "post_save_wall_photo w server photo hash_value s =
     (let s1 = emit [SaveWallPhoto server photo hash_value] s in
      case save_response w of
        Inl e \<Rightarrow> (Inl e, s1)
      | Inr resp \<Rightarrow>
          if has_key ''error'' resp then (Inl (error_branch (dict_get resp ''error'')), s1)
          else (case getitem resp ''response'' of
                  Inl e \<Rightarrow> (Inl e, s1)
                | Inr r \<Rightarrow>
                    (case subscript_zero r of
                       Inl e \<Rightarrow> (Inl e, s1)
                     | Inr photo_data \<Rightarrow>
                         (case subscript_str photo_data ''owner_id'' of
                            Inl e \<Rightarrow> (Inl e, s1)
                          | Inr owner_id \<Rightarrow>
                              (case subscript_str photo_data ''id'' of
                                 Inl e \<Rightarrow> (Inl e, s1)
                               | Inr photo_id \<Rightarrow>
                                   (Inr (PhotoAttachment owner_id photo_id), s1))))))"

definition wall_post :: "world \<Rightarrow> attachment \<Rightarrow> string \<Rightarrow> jdict action" where
  \<comment> \<open>\<^verbatim>\<open>-int(self.GROUP_ID)\<close> is evaluated among the arguments, before the request is made\<close>
  "wall_post w photo_attachment message s =
     (case group_id_int w of
        Inl e \<Rightarrow> (Inl e, s)
      | Inr owner \<Rightarrow>
          (let s1 = emit [WallPost photo_attachment message] s in
           case wall_post_response w of
             Inl e \<Rightarrow> (Inl e, s1)
           | Inr resp \<Rightarrow>
               if has_key ''error'' resp then (Inl (error_branch (dict_get resp ''error'')), s1)
               else (Inr resp, s1)))"

definition cleanup_file :: "world \<Rightarrow> string \<Rightarrow> unit call" where
  \<comment> \<open>the handlers \<^verbatim>\<open>except FileNotFoundError\<close> and \<^verbatim>\<open>except Exception\<close> of \<^verbatim>\<open>_cleanup_file\<close>
      only log; what neither catches leaves the method\<close>
  "cleanup_file w p s =
     (let s1 = emit [RemoveFile p] s in
      case remove_fault w of
        Some r \<Rightarrow>
          if caught_by is_FileNotFoundError r then (Inr (), s1)
          else if is_Exception r then (Inr (), s1)
          else (Inl r, s1)
      | None \<Rightarrow>
          (case disk s1 p of
             None \<Rightarrow> (Inr (), s1)  \<comment> \<open>\<^verbatim>\<open>FileNotFoundError\<close>: a warning\<close>
           | Some n \<Rightarrow> (Inr (), s1\<lparr>disk := (disk s1)(p := None)\<rparr>)))"


subsection \<open>\<^verbatim>\<open>create_post_from_wall\<close>\<close>

text \<open>
  The methods that \<^verbatim>\<open>create_post_from_wall\<close> calls on \<^verbatim>\<open>self\<close> and on the validator. The
  control flow of the caller is written once, over any behaviour of these methods, which
  may raise anything; \<open>vkapi_methods\<close> are the ones of the class.
\<close>

record methods =
  m_validate_image_file :: "string \<Rightarrow> bool call"
  m_get_upload_url :: "json call"
  m_upload_image :: "json \<Rightarrow> string \<Rightarrow> (json \<times> json \<times> json) call"
  m_post_save_wall_photo :: "json \<Rightarrow> json \<Rightarrow> json \<Rightarrow> attachment call"
  m_wall_post :: "attachment \<Rightarrow> string \<Rightarrow> jdict call"
  m_cleanup_file :: "string \<Rightarrow> unit call"

definition vkapi_methods :: "constants \<Rightarrow> world \<Rightarrow> methods" where
  "vkapi_methods c w =
     \<lparr>m_validate_image_file = (\<lambda>file_path. lift (validate_image_file c w file_path)),
      m_get_upload_url = lift (get_upload_url w),
      m_upload_image = (\<lambda>upload_url file_path. lift (upload_image w upload_url file_path 3)),
      m_post_save_wall_photo =
        (\<lambda>server photo hash_value. lift (post_save_wall_photo w server photo hash_value)),
      m_wall_post = (\<lambda>photo_attachment message. lift (wall_post w photo_attachment message)),
      m_cleanup_file = cleanup_file w\<rparr>"

definition try_block :: "methods \<Rightarrow> string \<Rightarrow> string \<Rightarrow> jdict option call" where
  \<comment> \<open>the body of the \<^verbatim>\<open>try\<close> statement\<close>
  "try_block ms file_path message s =
     (case m_validate_image_file ms file_path s of
        (Inl e, s1) \<Rightarrow> (Inl e, s1)
      | (Inr valid, s1) \<Rightarrow>
          if \<not> valid then (Inr None, s1)
          else (case m_get_upload_url ms s1 of
             (Inl e, s2) \<Rightarrow> (Inl e, s2)
           | (Inr upload_url, s2) \<Rightarrow>
               (case m_upload_image ms upload_url file_path s2 of
                  (Inl e, s3) \<Rightarrow> (Inl e, s3)
                | (Inr (server, photo, hash_value), s3) \<Rightarrow>
                    if \<not> truthy photo then (Inr None, s3)
                    else (case m_post_save_wall_photo ms server photo hash_value s3 of
                       (Inl e, s4) \<Rightarrow> (Inl e, s4)
                     | (Inr photo_attachment, s4) \<Rightarrow>
                         (case m_wall_post ms photo_attachment message s4 of
                            (Inl e, s5) \<Rightarrow> (Inl e, s5)
                          | (Inr result, s5) \<Rightarrow>
                              (case m_cleanup_file ms file_path s5 of
                                 (Inl e, s6) \<Rightarrow> (Inl e, s6)
                               | (Inr u, s6) \<Rightarrow> (Inr (Some result), s6)))))))"

definition create_post_from_wall_with ::
  "methods \<Rightarrow> nat \<Rightarrow> nat \<Rightarrow> string \<Rightarrow> string \<Rightarrow> jdict option call" where
  \<comment> \<open>\<^verbatim>\<open>await self._rate_limit()\<close>, then the \<^verbatim>\<open>try\<close> statement with its handlers
      \<^verbatim>\<open>except KeyError\<close> and \<^verbatim>\<open>except Exception\<close>\<close>
  "create_post_from_wall_with ms gap lag file_path message s =
     (case try_block ms file_path message (rate_limit gap lag s) of
        (Inl r, s') \<Rightarrow>
          if caught_by is_KeyError r then (Inr None, s')
          else if is_Exception r then (Inr None, s')
          else (Inl r, s')
      | (Inr v, s') \<Rightarrow> (Inr v, s'))"

definition create_post_from_wall ::
  "constants \<Rightarrow> world \<Rightarrow> string \<Rightarrow> string \<Rightarrow> jdict option call" where
  "create_post_from_wall c w file_path message s =
     create_post_from_wall_with (vkapi_methods c w) (rl_gap w) (rl_lag w) file_path message s"

definition new_events :: "vk_state \<Rightarrow> vk_state \<Rightarrow> event list" where
  \<comment> \<open>the effects added between two states of one run\<close>
  "new_events s s' = drop (length (trace s)) (trace s')"



fun is_upload_event :: "event \<Rightarrow> bool" where
  "is_upload_event (UploadAttempt _) = True"
| "is_upload_event (BackoffSleep _) = True"
| "is_upload_event _ = False"

text \<open>
  Concrete inputs for the examples: one file of 2048 bytes on disk, a fresh instance, and a
  world in which every request succeeds, apart from the upload and save answers, which each
  example chooses.
\<close>

definition sample_constants :: constants where
  "sample_constants =
     \<lparr>allowed_extensions = [''.jpg'', ''.png''], min_file_size_bytes = 1,
      max_file_size_bytes = 52428800,
      suffix_lower = (\<lambda>p. if p = ''photo.jpg'' then ''.jpg'' else [])\<rparr>"

definition sample_state :: vk_state where
  "sample_state = new_vkapi 0 [''photo.jpg'' \<mapsto> 2048]"

definition sample_world :: "(nat \<Rightarrow> exn + jdict) \<Rightarrow> (exn + jdict) \<Rightarrow> world" where
  "sample_world uploads saved =
     \<lparr>rl_gap = 0, rl_lag = 0, exists_fault = None, stat_fault = None, remove_fault = None,
      upload_server_response =
        Inr [(''response'', JDict [(''upload_url'', JStr ''https://upload.example'')])],
      upload_response = uploads,
      save_response = saved,
      group_id_int = Inr 42,
      wall_post_response = Inr [(''response'', JDict [(''post_id'', JInt 9)])]\<rparr>"

definition saved_ok :: "exn + jdict" where
  "saved_ok = Inr [(''response'', JList [JDict [(''owner_id'', JInt (-42)), (''id'', JInt 7)]])]"


subsection \<open>\<^verbatim>\<open>VKAPI.verify_file_ready\<close>\<close>

text \<open>
  \<open>reads attempt\<close> is what \<^verbatim>\<open>open(file_path, "rb")\<close> followed by \<^verbatim>\<open>f.read(1024)\<close> does on
  that attempt: an exception, or the number of bytes read. The result comes with the sleeps
  made, in microseconds.
\<close>

fun verify_loop ::
  "(nat \<Rightarrow> exn + nat) \<Rightarrow> nat \<Rightarrow> nat list \<Rightarrow> int list \<Rightarrow> (exn + bool) \<times> int list" where
  "verify_loop reads max_attempts [] sleeps = (Inr False, sleeps)"
| "verify_loop reads max_attempts (attempt # rest) sleeps =
     (case reads attempt of
        Inr n \<Rightarrow> (Inr True, sleeps)
      | Inl e \<Rightarrow>
          if is_OSError e then
            verify_loop reads max_attempts rest
              (if attempt + 1 < max_attempts then sleeps @ [300000 * (int attempt + 1)]
               else sleeps)
          else (Inl e, sleeps))"

definition raises_oserror :: "exn + nat \<Rightarrow> bool" where
  \<comment> \<open>the attempt ends in \<^verbatim>\<open>except (IOError, OSError)\<close>\<close>
  "raises_oserror r = (case r of Inl e \<Rightarrow> is_OSError e | Inr n \<Rightarrow> False)"

definition verify_file_ready :: "(nat \<Rightarrow> exn + nat) \<Rightarrow> nat \<Rightarrow> (exn + bool) \<times> int list" where
  "verify_file_ready reads max_attempts = verify_loop reads max_attempts [0..<max_attempts] []"


subsection \<open>\<^verbatim>\<open>FileValidator.wait_for_file_ready\<close> (src/utils/file_validator.py)\<close>

text \<open>
  What one attempt observes: \<^verbatim>\<open>path.exists()\<close>, \<^verbatim>\<open>path.stat().st_size\<close> and the number of
  bytes that \<^verbatim>\<open>open\<close> and \<^verbatim>\<open>f.read(FILE_READ_CHUNK_SIZE)\<close> deliver, each of which may raise.
  \<^verbatim>\<open>initial_delay\<close> is in microseconds.
\<close>

record probe =
  p_exists :: "exn + bool"
  p_size :: "exn + int"
  p_read :: "exn + nat"

fun wait_loop ::
  "(nat \<Rightarrow> probe) \<Rightarrow> nat \<Rightarrow> int \<Rightarrow> nat list \<Rightarrow> int \<Rightarrow> int list \<Rightarrow> (exn + bool) \<times> int list" where
  "wait_loop probes max_attempts initial_delay [] prev_size sleeps = (Inr False, sleeps)"
| "wait_loop probes max_attempts initial_delay (attempt # rest) prev_size sleeps =
     (case p_exists (probes attempt) of
        Inl e \<Rightarrow>
          if is_OSError e then
            wait_loop probes max_attempts initial_delay rest prev_size
              (if attempt + 1 < max_attempts then sleeps @ [initial_delay * 2 ^ attempt]
               else sleeps)
          else (Inl e, sleeps)
      | Inr present \<Rightarrow>
          if \<not> present then
            wait_loop probes max_attempts initial_delay rest prev_size
              (sleeps @ [initial_delay * 2 ^ attempt])
          else
            (case p_size (probes attempt) of
               Inl e \<Rightarrow>
                 if is_OSError e then
                   wait_loop probes max_attempts initial_delay rest prev_size
                     (if attempt + 1 < max_attempts then sleeps @ [initial_delay * 2 ^ attempt]
                      else sleeps)
                 else (Inl e, sleeps)
             | Inr current_size \<Rightarrow>
                 if current_size = 0 then
                   wait_loop probes max_attempts initial_delay rest prev_size
                     (sleeps @ [initial_delay * 2 ^ attempt])
                 else
                   (case p_read (probes attempt) of
                      Inl e \<Rightarrow>
                        if is_OSError e then
                          wait_loop probes max_attempts initial_delay rest prev_size
                            (if attempt + 1 < max_attempts
                             then sleeps @ [initial_delay * 2 ^ attempt] else sleeps)
                        else (Inl e, sleeps)
                    | Inr n \<Rightarrow>
                        if n = 0 then
                          wait_loop probes max_attempts initial_delay rest prev_size
                            (sleeps @ [initial_delay * 2 ^ attempt])
                        else if attempt > 0 \<and> current_size = prev_size then (Inr True, sleeps)
                        else
                          wait_loop probes max_attempts initial_delay rest current_size
                            (if attempt + 1 < max_attempts
                             then sleeps @ [initial_delay * 2 ^ attempt] else sleeps))))"

definition wait_for_file_ready ::
  "(nat \<Rightarrow> probe) \<Rightarrow> nat \<Rightarrow> int \<Rightarrow> (exn + bool) \<times> int list" where
  "wait_for_file_ready probes max_attempts initial_delay =
     wait_loop probes max_attempts initial_delay [0..<max_attempts] 0 []"

definition steady_probe :: "probe \<Rightarrow> int \<Rightarrow> bool" where
  \<comment> \<open>the file exists, has the given non-zero size and delivers data\<close>
  "steady_probe pr sz \<longleftrightarrow>
     p_exists pr = Inr True \<and> p_size pr = Inr sz \<and> sz \<noteq> 0 \<and>
     (case p_read pr of Inr n \<Rightarrow> n \<noteq> 0 | Inl e \<Rightarrow> False)"


section \<open>Properties of the statistics\<close>

subsection \<open>Facts about the Moscow midnight\<close>

lemma today_msk_le: "today_msk t \<le> t"
proof -
  have "((t + msk_offset_us) div day_us) * day_us \<le> t + msk_offset_us"
    by (simp add: day_us_def)
  then show ?thesis by (simp add: today_msk_def)
qed

lemma today_msk_mono: "a \<le> b \<Longrightarrow> today_msk a \<le> today_msk b"
proof -
  assume "a \<le> b"
  then have "(a + msk_offset_us) div day_us \<le> (b + msk_offset_us) div day_us"
    by (intro zdiv_mono1) (simp_all add: day_us_def)
  then have "((a + msk_offset_us) div day_us) * day_us \<le> ((b + msk_offset_us) div day_us) * day_us"
    by (intro mult_right_mono) (simp_all add: day_us_def)
  then show ?thesis by (simp add: today_msk_def)
qed

lemma today_msk_idem: "today_msk (today_msk t) = today_msk t"
  by (simp add: today_msk_def day_us_def)

lemma before_today_msk: "today_msk a < today_msk b \<Longrightarrow> a < today_msk b"
proof (rule ccontr)
  assume lt: "today_msk a < today_msk b" and "\<not> a < today_msk b"
  then have "today_msk b \<le> a" by simp
  then have "today_msk (today_msk b) \<le> today_msk a" by (rule today_msk_mono)
  with lt show False by (simp add: today_msk_idem)
qed


lemma calls_since_snoc:
  "calls_since b c (calls @ [(t, k)]) = calls_since b c calls + (if k = c \<and> b \<le> t then 1 else 0)"
  by (simp add: calls_since_def)

lemma calls_of_snoc:
  "calls_of c (calls @ [(t, k)]) = calls_of c calls + (if k = c then 1 else 0)"
  by (simp add: calls_of_def)

lemma calls_since_none:
  "\<forall>x \<in> set calls. fst x < b \<Longrightarrow> calls_since b c calls = 0"
  by (induction calls) (auto simp: calls_since_def)

lemma run_calls_snoc: "run_calls s (calls @ [x]) = apply_call (run_calls s calls) x"
  by (simp add: run_calls_def)

lemma last_bounds:
  "sorted (t0 # ts) \<Longrightarrow> \<forall>x \<in> set ts. x \<le> last (t0 # ts)"
  by (induction ts arbitrary: t0) auto

lemma counts_hold_new: "counts_hold t0 [] (new_statistics t0)"
  by (simp add: counts_hold_def counts_at_def new_statistics_def check_and_reset_daily_def
      calls_of_def calls_since_def)

lemma counts_at_step:
  assumes inv: "counts_at p calls s"
    and le: "p \<le> t"
    and below: "\<forall>x \<in> set calls. fst x \<le> p"
  shows "counts_at t (calls @ [(t, k)]) (apply_call s (t, k))"
proof -
  have mono: "today_msk p \<le> today_msk t" using le by (rule today_msk_mono)
  show ?thesis
  proof (cases "today_msk p < today_msk t")
    case True
    then have "p < today_msk t" by (rule before_today_msk)
    with below have "\<forall>x \<in> set calls. fst x < today_msk t" by fastforce
    then have none: "calls_since (today_msk t) c calls = 0" for c by (rule calls_since_none)
    from inv True show ?thesis
      unfolding counts_at_def
      by (cases k)
        (simp_all add: increment_success_def increment_error_def check_and_reset_daily_def
          Let_def calls_since_snoc calls_of_snoc none today_msk_le)
  next
    case False
    with mono have same: "today_msk p = today_msk t" by simp
    from inv show ?thesis
      unfolding counts_at_def
      by (cases k)
        (simp_all add: increment_success_def increment_error_def check_and_reset_daily_def
          Let_def calls_since_snoc calls_of_snoc same today_msk_le)
  qed
qed

lemma counts_hold_step:
  assumes inv: "counts_hold t0 calls s"
    and srt: "sorted (t0 # map fst calls @ [t])"
  shows "counts_hold t0 (calls @ [(t, k)]) (apply_call s (t, k))"
proof -
  let ?prev = "last (t0 # map fst calls)"
  from srt have srt': "sorted (t0 # map fst calls)"
    and below: "\<forall>x \<in> set (t0 # map fst calls). x \<le> t"
    by (auto simp: sorted_append)
  have "?prev \<in> set (t0 # map fst calls)" by (rule last_in_set) simp
  with below have le: "?prev \<le> t" by blast
  have "\<forall>x \<in> set (map fst calls). x \<le> ?prev" using srt' by (rule last_bounds)
  then have bnd: "\<forall>x \<in> set calls. fst x \<le> ?prev" by simp
  have last_new: "last (t0 # map fst (calls @ [(t, k)])) = t" by simp
  from inv have "counts_at ?prev calls s" by (simp only: counts_hold_def)
  then have "counts_at t (calls @ [(t, k)]) (apply_call s (t, k))"
    using le bnd by (rule counts_at_step)
  then show ?thesis by (simp only: counts_hold_def last_new)
qed

lemma counts_hold_run:
  "sorted (t0 # map fst calls) \<Longrightarrow> counts_hold t0 calls (run_calls (new_statistics t0) calls)"
proof (induction calls rule: rev_induct)
  case Nil
  show ?case by (simp add: run_calls_def counts_hold_new)
next
  case (snoc x calls)
  obtain t k where x: "x = (t, k)" by (cases x)
  from snoc.prems have srt: "sorted (t0 # map fst calls @ [t])" by (simp add: x)
  then have "sorted (t0 # map fst calls)" by (auto simp: sorted_append)
  then have "counts_hold t0 calls (run_calls (new_statistics t0) calls)" by (rule snoc.IH)
  then show ?case unfolding run_calls_snoc x using srt by (rule counts_hold_step)
qed

lemma totals_never_decrease:
  "total_success s \<le> total_success (apply_call s call) \<and>
   total_errors s \<le> total_errors (apply_call s call)"
proof -
  obtain t k where "call = (t, k)" by (cases call)
  then show ?thesis
    by (cases k)
      (simp_all add: increment_success_def increment_error_def check_and_reset_daily_def Let_def)
qed

lemma rollover_zeroes:
  "daily_reset_date s = Some d \<Longrightarrow> d < today_msk t \<Longrightarrow>
   daily_success (check_and_reset_daily t s) = 0 \<and> daily_errors (check_and_reset_daily t s) = 0 \<and>
   daily_reset_date (check_and_reset_daily t s) = Some (today_msk t)"
  by (simp add: check_and_reset_daily_def Let_def)

lemma check_same_day:
  "daily_reset_date s = Some (today_msk t) \<Longrightarrow> check_and_reset_daily t s = s"
  by (simp add: check_and_reset_daily_def)

lemma check_sets_boundary:
  "daily_reset_date (check_and_reset_daily t s) = Some (today_msk t) \<or>
   (\<exists>d. daily_reset_date s = Some d \<and> today_msk t \<le> d \<and> check_and_reset_daily t s = s)"
  by (cases "daily_reset_date s") (auto simp add: check_and_reset_daily_def Let_def)


lemma today_msk_unique:
  assumes "m \<le> t" "t < m + day_us" "(m + msk_offset_us) mod day_us = 0"
  shows "today_msk t = m"
proof -
  from assms(3) obtain q where q: "m + msk_offset_us = q * day_us"
    by (auto simp: mod_eq_0_iff_dvd dvd_def mult.commute)
  define r where "r = t - m"
  have r: "0 \<le> r" "r < day_us" using assms(1,2) by (simp_all add: r_def)
  have ne: "day_us \<noteq> 0" by (simp add: day_us_def)
  have "t + msk_offset_us = r + q * day_us" using q by (simp add: r_def)
  then have "(t + msk_offset_us) div day_us = (r + q * day_us) div day_us" by simp
  also have "\<dots> = q + r div day_us" using ne by (rule div_mult_self1)
  also have "r div day_us = 0" using r by (rule div_pos_pos_trivial)
  finally have "(t + msk_offset_us) div day_us = q" by simp
  then show ?thesis using q by (simp add: today_msk_def)
qed

lemma moscow_midnight_exists:
  "\<exists>m. m \<le> t \<and> t < m + day_us \<and> (m + msk_offset_us) mod day_us = 0"
proof (intro exI conjI)
  show "today_msk t \<le> t" by (rule today_msk_le)
  have "(t + msk_offset_us) mod day_us < day_us" by (simp add: day_us_def)
  then show "t < today_msk t + day_us"
    by (simp add: today_msk_def minus_mod_eq_div_mult [symmetric])
  show "(today_msk t + msk_offset_us) mod day_us = 0" by (simp add: today_msk_def)
qed

lemma today_msk_next_day:
  assumes "(m + msk_offset_us) mod day_us = 0" "m + day_us \<le> t"
  shows "m < today_msk t"
proof -
  have "(m + day_us + msk_offset_us) mod day_us = 0" using assms(1) by (simp add: add.assoc add.commute add.left_commute)
  then have "today_msk (m + day_us) = m + day_us"
    by (intro today_msk_unique) (simp_all add: day_us_def)
  moreover have "today_msk (m + day_us) \<le> today_msk t" using assms(2) by (rule today_msk_mono)
  ultimately show ?thesis by (simp add: day_us_def)
qed


section \<open>Claims about the statistics\<close>

text \<open>
  C3. Take any sequence of \<^verbatim>\<open>increment_success\<close> / \<^verbatim>\<open>increment_error\<close> calls on a fresh
  \<^verbatim>\<open>Statistics\<close> object whose wall-clock readings do not go backwards (the sequence may
  cross any number of Moscow midnights), and let \<open>m\<close> be the most recent Moscow midnight at
  the last reading: the instant that is 00:00 in the zone three hours ahead of UTC, not
  after the last reading and less than one day before it. Then the daily counters equal the
  number of matching calls made at or after \<open>m\<close>, and the total counters equal the number of
  matching calls of the whole sequence; no call decreases a total counter; and a rollover
  check made one day after \<open>m\<close> or later sets both daily counters to 0.
\<close>

theorem statistics_daily_and_total_counters:
  assumes "sorted (t0 # map fst calls)"
    and "m \<le> last (t0 # map fst calls)" and "last (t0 # map fst calls) < m + day_us"
    and "(m + msk_offset_us) mod day_us = 0"
  shows "total_success (run_calls (new_statistics t0) calls) = calls_of IncrementSuccess calls \<and>
     total_errors (run_calls (new_statistics t0) calls) = calls_of IncrementError calls \<and>
     daily_success (run_calls (new_statistics t0) calls) = calls_since m IncrementSuccess calls \<and>
     daily_errors (run_calls (new_statistics t0) calls) = calls_since m IncrementError calls \<and>
     (\<forall>s call. total_success s \<le> total_success (apply_call s call) \<and>
        total_errors s \<le> total_errors (apply_call s call)) \<and>
     (\<forall>t. m + day_us \<le> t \<longrightarrow>
        daily_success (check_and_reset_daily t (run_calls (new_statistics t0) calls)) = 0 \<and>
        daily_errors (check_and_reset_daily t (run_calls (new_statistics t0) calls)) = 0)"
proof -
  have mid: "today_msk (last (t0 # map fst calls)) = m"
    using assms(2,3,4) by (rule today_msk_unique)
  from assms(1) have inv: "counts_hold t0 calls (run_calls (new_statistics t0) calls)"
    by (rule counts_hold_run)
  then have cnt: "counts_at (last (t0 # map fst calls)) calls (run_calls (new_statistics t0) calls)"
    by (simp only: counts_hold_def)
  then have bd: "daily_reset_date (run_calls (new_statistics t0) calls) = Some m"
    unfolding counts_at_def mid by blast
  have roll: "daily_success (check_and_reset_daily t (run_calls (new_statistics t0) calls)) = 0 \<and>
        daily_errors (check_and_reset_daily t (run_calls (new_statistics t0) calls)) = 0"
    if "m + day_us \<le> t" for t
  proof -
    have "m < today_msk t" using assms(4) that by (rule today_msk_next_day)
    from rollover_zeroes [OF bd this] show ?thesis by simp
  qed
  from cnt roll totals_never_decrease show ?thesis
    unfolding counts_at_def mid by blast
qed


text \<open>
  The run starts at 03:00 Moscow time of day 0, makes a successful and a failed call on that
  day and two successful calls after the next Moscow midnight, five and nine microseconds
  past it: the day's count is 2, the totals are 3 and 1.
\<close>

theorem statistics_daily_and_total_counters_witness:
  "sorted ((0::int) # map fst [(1000000, IncrementSuccess), (2000000, IncrementError),
       (75600000005, IncrementSuccess), (75600000009, IncrementSuccess)]) \<and>
   (75600000000 + msk_offset_us) mod day_us = 0 \<and>
   total_success (run_calls (new_statistics 0) [(1000000, IncrementSuccess),
       (2000000, IncrementError), (75600000005, IncrementSuccess),
       (75600000009, IncrementSuccess)]) = 3 \<and>
   total_errors (run_calls (new_statistics 0) [(1000000, IncrementSuccess),
       (2000000, IncrementError), (75600000005, IncrementSuccess),
       (75600000009, IncrementSuccess)]) = 1 \<and>
   daily_success (run_calls (new_statistics 0) [(1000000, IncrementSuccess),
       (2000000, IncrementError), (75600000005, IncrementSuccess),
       (75600000009, IncrementSuccess)]) = 2 \<and>
   daily_errors (run_calls (new_statistics 0) [(1000000, IncrementSuccess),
       (2000000, IncrementError), (75600000005, IncrementSuccess),
       (75600000009, IncrementSuccess)]) = 0"
proof -
  let ?calls = "[(1000000::int, IncrementSuccess), (2000000, IncrementError),
       (75600000005, IncrementSuccess), (75600000009, IncrementSuccess)]"
  have srt: "sorted (0 # map fst ?calls)" by simp
  have lo: "75600000000 \<le> last (0 # map fst ?calls)" by simp
  have hi: "last (0 # map fst ?calls) < 75600000000 + day_us" by (simp add: day_us_def)
  have mid: "(75600000000 + msk_offset_us) mod day_us = 0"
    by (simp add: day_us_def msk_offset_us_def)
  show ?thesis
    using srt mid statistics_daily_and_total_counters [OF srt lo hi mid]
    by (simp add: calls_of_def calls_since_def)
qed


text \<open>
  C7. Two rollover checks in succession on the same Moscow day leave the object as one check
  does, and a forced \<^verbatim>\<open>reset_daily_stats\<close> followed by the lazy check on the same Moscow day
  leaves the counters and the reset boundary as the forced reset set them.
\<close>

theorem rollover_check_idempotent:
  assumes "today_msk t' = today_msk t"
  shows "check_and_reset_daily t' (check_and_reset_daily t s) = check_and_reset_daily t s \<and>
     check_and_reset_daily t' (reset_daily_stats t s) = reset_daily_stats t s"
proof -
  have "check_and_reset_daily t' (reset_daily_stats t s) = reset_daily_stats t s"
    by (rule check_same_day) (simp add: reset_daily_stats_def assms)
  moreover have "check_and_reset_daily t' (check_and_reset_daily t s) = check_and_reset_daily t s"
    using check_sets_boundary [of t s]
  proof
    assume "daily_reset_date (check_and_reset_daily t s) = Some (today_msk t)"
    then show ?thesis by (intro check_same_day) (simp add: assms)
  next
    assume "\<exists>d. daily_reset_date s = Some d \<and> today_msk t \<le> d \<and> check_and_reset_daily t s = s"
    then obtain d where "daily_reset_date s = Some d" "today_msk t \<le> d"
      "check_and_reset_daily t s = s" by blast
    then show ?thesis by (simp add: check_and_reset_daily_def Let_def assms)
  qed
  ultimately show ?thesis by simp
qed

text \<open>
  Two successes are counted at 03:00:01 Moscow time; the checks and the forced reset happen
  two and three seconds after that, on the same Moscow day.
\<close>

theorem rollover_check_idempotent_witness:
  "today_msk 3000000 = today_msk 2000000 \<and>
   daily_success (check_and_reset_daily 3000000 (check_and_reset_daily 2000000
       (run_calls (new_statistics 0) [(1000000, IncrementSuccess), (1000000, IncrementSuccess)]))) = 2 \<and>
   check_and_reset_daily 3000000 (reset_daily_stats 2000000
       (run_calls (new_statistics 0) [(1000000, IncrementSuccess), (1000000, IncrementSuccess)]))
     = reset_daily_stats 2000000
       (run_calls (new_statistics 0) [(1000000, IncrementSuccess), (1000000, IncrementSuccess)])"
proof -
  have same: "today_msk 3000000 = today_msk 2000000"
    by (simp add: today_msk_def day_us_def msk_offset_us_def)
  have two: "daily_success (check_and_reset_daily 2000000
       (run_calls (new_statistics 0) [(1000000, IncrementSuccess), (1000000, IncrementSuccess)])) = 2"
    by (simp add: run_calls_def new_statistics_def increment_success_def check_and_reset_daily_def
        Let_def today_msk_def day_us_def msk_offset_us_def)
  show ?thesis
    using same two rollover_check_idempotent [OF same,
        of "run_calls (new_statistics 0) [(1000000, IncrementSuccess), (1000000, IncrementSuccess)]"]
    by simp
qed


section \<open>Properties of the readiness checks\<close>

lemma verify_loop_true:
  "\<forall>j \<in> set pre. raises_oserror (reads j) \<Longrightarrow> reads k = Inr m \<Longrightarrow>
   fst (verify_loop reads n (pre @ k # post) sl) = Inr True"
  by (induction pre arbitrary: sl) (auto simp: raises_oserror_def split: sum.splits)

lemma verify_loop_false:
  "fst (verify_loop reads n xs sl) = Inr False \<longleftrightarrow> (\<forall>j \<in> set xs. raises_oserror (reads j))"
  by (induction xs arbitrary: sl) (auto simp: raises_oserror_def split: sum.splits)

lemma upt_split: "k < n \<Longrightarrow> [0..<n] = [0..<k] @ k # [Suc k..<n]"
  by (metis upt_conv_Cons upt_add_eq_append le0 less_imp_le_nat add_0 le_add_diff_inverse)

lemma wait_loop_steady_step:
  assumes "steady_probe (probes a) c"
  shows "wait_loop probes n d (a # rest) prev sl =
     (if 0 < a \<and> c = prev then (Inr True, sl)
      else wait_loop probes n d rest c (if a + 1 < n then sl @ [d * 2 ^ a] else sl))"
  using assms by (auto simp: steady_probe_def split: sum.splits)

lemma wait_loop_true:
  assumes "a \<le> k" "k < n" "0 < k"
    and "\<forall>j. a \<le> j \<and> j \<le> k \<longrightarrow> steady_probe (probes j) (sz j)"
    and "sz k = sz (k - 1)"
    and "\<forall>j. a \<le> j \<and> j < k \<and> 0 < j \<longrightarrow> sz j \<noteq> sz (j - 1)"
    and "0 < a \<longrightarrow> prev = sz (a - 1)"
  shows "wait_loop probes n d [a..<n] prev sl = (Inr True, sl @ map (\<lambda>j. d * 2 ^ j) [a..<k])"
  using assms
proof (induction "k - a" arbitrary: a prev sl)
  case 0
  then have ak: "a = k" by simp
  have cons: "[k..<n] = k # [Suc k..<n]" using "0.prems" by (simp add: upt_conv_Cons)
  have st: "steady_probe (probes k) (sz k)" using "0.prems"(4) ak by blast
  have eq: "0 < k \<and> sz k = prev" using "0.prems"(3,5,7) ak by simp
  show ?case
    unfolding ak cons
    by (subst wait_loop_steady_step [where probes = probes and a = k and c = "sz k", OF st]) (simp add: eq)
next
  case (Suc m)
  then have lt: "a < k" by simp
  then have cons: "[a..<n] = a # [Suc a..<n]" using Suc.prems by (simp add: upt_conv_Cons)
  have st: "steady_probe (probes a) (sz a)" using Suc.prems lt by simp
  have ne: "\<not> (0 < a \<and> sz a = prev)" using Suc.prems lt by auto
  have an: "a + 1 < n" using lt Suc.prems by simp
  have "wait_loop probes n d [Suc a..<n] (sz a) (sl @ [d * 2 ^ a])
      = (Inr True, (sl @ [d * 2 ^ a]) @ map (\<lambda>j. d * 2 ^ j) [Suc a..<k])"
  proof (rule Suc.hyps(1))
    show "m = k - Suc a" using Suc.hyps(2) by simp
    show "Suc a \<le> k" using lt by simp
    show "k < n" "0 < k" "sz k = sz (k - 1)" using Suc.prems by simp_all
    show "\<forall>j. Suc a \<le> j \<and> j \<le> k \<longrightarrow> steady_probe (probes j) (sz j)" using Suc.prems by simp
    show "\<forall>j. Suc a \<le> j \<and> j < k \<and> 0 < j \<longrightarrow> sz j \<noteq> sz (j - 1)" using Suc.prems by simp
    show "0 < Suc a \<longrightarrow> sz a = sz (Suc a - 1)" by simp
  qed
  moreover have "[a..<k] = a # [Suc a..<k]" using lt by (simp add: upt_conv_Cons)
  ultimately show ?case
    using ne an
    by (simp del: wait_loop.simps add: cons wait_loop_steady_step [where probes = probes and a = a and c = "sz a", OF st])
qed

lemma wait_loop_false:
  assumes "\<forall>j. a \<le> j \<and> j < n \<longrightarrow> steady_probe (probes j) (sz j)"
    and "\<forall>j. a \<le> j \<and> j < n \<and> 0 < j \<longrightarrow> sz j \<noteq> sz (j - 1)"
    and "0 < a \<longrightarrow> prev = sz (a - 1)"
  shows "fst (wait_loop probes n d [a..<n] prev sl) = Inr False"
  using assms
proof (induction "n - a" arbitrary: a prev sl)
  case 0
  then show ?case by simp
next
  case (Suc m)
  then have lt: "a < n" by simp
  then have cons: "[a..<n] = a # [Suc a..<n]" by (simp add: upt_conv_Cons)
  have st: "steady_probe (probes a) (sz a)" using Suc.prems lt by simp
  have ne: "\<not> (0 < a \<and> sz a = prev)" using Suc.prems lt by auto
  have "fst (wait_loop probes n d [Suc a..<n] (sz a) sl') = Inr False" for sl'
  proof (rule Suc.hyps(1))
    show "m = n - Suc a" using Suc.hyps(2) by simp
    show "\<forall>j. Suc a \<le> j \<and> j < n \<longrightarrow> steady_probe (probes j) (sz j)" using Suc.prems by simp
    show "\<forall>j. Suc a \<le> j \<and> j < n \<and> 0 < j \<longrightarrow> sz j \<noteq> sz (j - 1)" using Suc.prems by simp
    show "0 < Suc a \<longrightarrow> sz a = sz (Suc a - 1)" by simp
  qed
  then show ?case
    using ne by (simp del: wait_loop.simps add: cons wait_loop_steady_step [where probes = probes and a = a and c = "sz a", OF st])
qed


section \<open>Claims about the readiness checks\<close>

text \<open>
  C6. When every attempt finds the file present, of non-zero size and readable,
  \<^verbatim>\<open>wait_for_file_ready\<close> returns \<^verbatim>\<open>False\<close> if the size observed differs from the one of
  the attempt before on every attempt up to \<^verbatim>\<open>max_attempts\<close>, and it returns \<^verbatim>\<open>True\<close> on the
  first attempt, other than the first one overall, whose size equals the size of the attempt
  right before it: attempt \<open>k\<close> (counted from 0), after exactly the \<open>k\<close> sleeps of the
  attempts before it.
\<close>

theorem wait_for_file_ready_stable_size:
  assumes "\<forall>j<max_attempts. steady_probe (probes j) (sz j)"
  shows "((\<forall>j. 0 < j \<and> j < max_attempts \<longrightarrow> sz j \<noteq> sz (j - 1)) \<longrightarrow>
       fst (wait_for_file_ready probes max_attempts d) = Inr False) \<and>
     (0 < k \<and> k < max_attempts \<and> sz k = sz (k - 1) \<and>
        (\<forall>j. 0 < j \<and> j < k \<longrightarrow> sz j \<noteq> sz (j - 1)) \<longrightarrow>
       wait_for_file_ready probes max_attempts d = (Inr True, map (\<lambda>j. d * 2 ^ j) [0..<k]))"
proof (intro conjI impI)
  assume "\<forall>j. 0 < j \<and> j < max_attempts \<longrightarrow> sz j \<noteq> sz (j - 1)"
  with assms show "fst (wait_for_file_ready probes max_attempts d) = Inr False"
    unfolding wait_for_file_ready_def by (intro wait_loop_false [where sz = sz]) auto
next
  assume h: "0 < k \<and> k < max_attempts \<and> sz k = sz (k - 1) \<and>
        (\<forall>j. 0 < j \<and> j < k \<longrightarrow> sz j \<noteq> sz (j - 1))"
  have "wait_loop probes max_attempts d [0..<max_attempts] 0 []
      = (Inr True, [] @ map (\<lambda>j. d * 2 ^ j) [0..<k])"
    using h assms by (intro wait_loop_true [where sz = sz]) auto
  then show "wait_for_file_ready probes max_attempts d = (Inr True, map (\<lambda>j. d * 2 ^ j) [0..<k])"
    by (simp add: wait_for_file_ready_def)
qed


text \<open>
  Sizes 10, 20, 20 on the first three of five attempts: ready on the third attempt, after
  sleeps of 0.5 s and 1 s. Sizes 1, 2, 3 on three attempts: not ready.
\<close>

theorem wait_for_file_ready_stable_size_witness:
  "steady_probe \<lparr>p_exists = Inr True, p_size = Inr 10, p_read = Inr 10\<rparr> 10 \<and>
   steady_probe \<lparr>p_exists = Inr True, p_size = Inr 20, p_read = Inr 10\<rparr> 20 \<and>
   wait_for_file_ready
     (\<lambda>j. \<lparr>p_exists = Inr True, p_size = Inr (if j = 0 then 10 else 20), p_read = Inr 10\<rparr>)
     5 500000 = (Inr True, [500000, 1000000]) \<and>
   fst (wait_for_file_ready
     (\<lambda>j. \<lparr>p_exists = Inr True, p_size = Inr (int j + 1), p_read = Inr 10\<rparr>) 3 500000)
     = Inr False"
proof -
  let ?sz = "\<lambda>j::nat. if j = 0 then 10 else (20::int)"
  let ?probes = "\<lambda>j::nat. \<lparr>p_exists = Inr True, p_size = Inr (?sz j), p_read = Inr (10::nat)\<rparr>"
  let ?grow = "\<lambda>j::nat. \<lparr>p_exists = Inr True, p_size = Inr (int j + 1), p_read = Inr (10::nat)\<rparr>"
  have st: "\<forall>j<5. steady_probe (?probes j) (?sz j)"
    by (simp add: steady_probe_def)
  have first: "\<forall>j::nat. 0 < j \<and> j < 2 \<longrightarrow> ?sz j \<noteq> ?sz (j - 1)"
    by auto
  have lst: "map (\<lambda>j. (500000::int) * 2 ^ j) [0..<2] = [500000, 1000000]"
    by (simp add: upt_conv_Cons)
  have ready: "wait_for_file_ready ?probes 5 500000 = (Inr True, [500000, 1000000])"
    using st first lst wait_for_file_ready_stable_size [OF st, where k = 2 and d = 500000]
    by simp
  have st': "\<forall>j<3. steady_probe (?grow j) (int j + 1)"
    by (simp add: steady_probe_def)
  have never: "fst (wait_for_file_ready ?grow 3 500000) = Inr False"
    using wait_for_file_ready_stable_size [OF st', where d = 500000] by simp
  show ?thesis
    using ready never by (simp add: steady_probe_def)
qed

text \<open>
  C9. \<^verbatim>\<open>verify_file_ready\<close> returns \<^verbatim>\<open>True\<close> on the first attempt whose open-and-read
  succeeds, whatever number of bytes the read delivers and with no earlier attempt to compare
  with (on the very first attempt it returns at once, having slept nothing); it returns
  \<^verbatim>\<open>False\<close> exactly when every one of the \<^verbatim>\<open>max_attempts\<close> attempts raises \<^verbatim>\<open>IOError\<close> or
  \<^verbatim>\<open>OSError\<close>.
\<close>

theorem verify_file_ready_first_readable:
  "(k < max_attempts \<and> (\<forall>j<k. raises_oserror (reads j)) \<and> reads k = Inr m \<longrightarrow>
      fst (verify_file_ready reads max_attempts) = Inr True) \<and>
   (0 < max_attempts \<and> reads 0 = Inr m \<longrightarrow> verify_file_ready reads max_attempts = (Inr True, [])) \<and>
   (fst (verify_file_ready reads max_attempts) = Inr False \<longleftrightarrow>
      (\<forall>j<max_attempts. raises_oserror (reads j)))"
proof (intro conjI impI)
  assume h: "k < max_attempts \<and> (\<forall>j<k. raises_oserror (reads j)) \<and> reads k = Inr m"
  then have "[0..<max_attempts] = [0..<k] @ k # [Suc k..<max_attempts]" by (simp add: upt_split)
  moreover from h have "\<forall>j \<in> set [0..<k]. raises_oserror (reads j)" by simp
  ultimately show "fst (verify_file_ready reads max_attempts) = Inr True"
    using h by (simp add: verify_file_ready_def verify_loop_true)
next
  assume h: "0 < max_attempts \<and> reads 0 = Inr m"
  then have "[0..<max_attempts] = 0 # [Suc 0..<max_attempts]" by (simp add: upt_conv_Cons)
  with h show "verify_file_ready reads max_attempts = (Inr True, [])"
    by (simp add: verify_file_ready_def)
next
  show "fst (verify_file_ready reads max_attempts) = Inr False \<longleftrightarrow>
      (\<forall>j<max_attempts. raises_oserror (reads j))"
    by (auto simp add: verify_file_ready_def verify_loop_false)
qed



text \<open>
  The first attempt fails with \<^verbatim>\<open>OSError\<close> and the second reads 1024 bytes; and a file
  that delivers 100 bytes on the very first attempt is reported ready at once.
\<close>

theorem verify_file_ready_first_readable_witness:
  "raises_oserror (Inl (OSError ''busy'')) \<and>
   fst (verify_file_ready (\<lambda>j. if j = 0 then Inl (OSError ''busy'') else Inr 1024) 3) = Inr True \<and>
   verify_file_ready (\<lambda>j. Inr (100 * (j + 1))) 3 = (Inr True, [])"
proof -
  have one: "fst (verify_file_ready (\<lambda>j. if j = 0 then Inl (OSError ''busy'') else Inr 1024) 3)
      = Inr True"
    using verify_file_ready_first_readable
      [where k = 1 and max_attempts = 3 and m = 1024
         and reads = "\<lambda>j. if j = 0 then Inl (OSError ''busy'') else Inr 1024"]
    by (simp add: raises_oserror_def)
  have two: "verify_file_ready (\<lambda>j. Inr (100 * (j + 1))) 3 = (Inr True, [])"
    using verify_file_ready_first_readable
      [where max_attempts = 3 and m = 100 and reads = "\<lambda>j. Inr (100 * (j + 1))"]
    by simp
  show ?thesis using one two by (simp add: raises_oserror_def)
qed


section \<open>Properties of the upload loop\<close>

lemma emit_emit: "emit es (emit fs s) = emit (fs @ es) s"
  by (simp add: emit_def)

lemma upload_loop_retry:
  assumes "a < mr" "\<not> upload_ok (upload_response w a)"
  shows "upload_loop w mr (a # rest) le s =
     upload_loop w mr rest (Some (retry_error (upload_response w a)))
       (emit [UploadAttempt a, BackoffSleep (2 ^ (a - 1))] s)"
  using assms
  by (auto simp: upload_ok_def retry_error_def emit_emit Let_def split: sum.splits)

lemma upload_loop_return:
  assumes "upload_response w k = Inr body" "\<not> photo_missing body"
  shows "upload_loop w mr (k # rest) le s =
     (Inr (dict_get body ''server'', dict_get body ''photo'', dict_get body ''hash''),
      emit [UploadAttempt k] s)"
  using assms by (simp add: Let_def)

lemma upload_loop_last_empty:
  assumes "\<not> a < mr" "empty_photo_response (upload_response w a)"
  shows "upload_loop w mr (a # rest) le s = (Inl empty_photo_error, emit [UploadAttempt a] s)"
  using assms by (auto simp: empty_photo_response_def Let_def split: sum.splits)

lemma attempts_trace_same: "attempts_trace k k = [UploadAttempt k]"
  by (simp add: attempts_trace_def)

lemma attempts_trace_step:
  "a < k \<Longrightarrow> attempts_trace a k = [UploadAttempt a, BackoffSleep (2 ^ (a - 1))] @ attempts_trace (Suc a) k"
  by (simp add: attempts_trace_def upt_conv_Cons)

lemma upload_loop_succeeds:
  assumes "a \<le> k" "k \<le> mr"
    and "\<forall>j. a \<le> j \<and> j < k \<longrightarrow> \<not> upload_ok (upload_response w j)"
    and "upload_response w k = Inr body" "\<not> photo_missing body"
  shows "upload_loop w mr [a..<Suc mr] le s =
     (Inr (dict_get body ''server'', dict_get body ''photo'', dict_get body ''hash''),
      emit (attempts_trace a k) s)"
  using assms
proof (induction "k - a" arbitrary: a le s)
  case 0
  then have ak: "a = k" by simp
  have cons: "[k..<Suc mr] = k # [Suc k..<Suc mr]" using "0.prems" by (simp add: upt_conv_Cons)
  show ?case
    unfolding ak cons attempts_trace_same
    using "0.prems"(4,5) by (rule upload_loop_return)
next
  case (Suc m)
  then have lt: "a < k" by simp
  then have amr: "a < mr" using Suc.prems by simp
  then have cons: "[a..<Suc mr] = a # [Suc a..<Suc mr]" by (simp add: upt_conv_Cons)
  have bad: "\<not> upload_ok (upload_response w a)" using Suc.prems lt by simp
  have next1: "upload_loop w mr [Suc a..<Suc mr] le' s' =
     (Inr (dict_get body ''server'', dict_get body ''photo'', dict_get body ''hash''),
      emit (attempts_trace (Suc a) k) s')" for le' s'
  proof (rule Suc.hyps(1))
    show "m = k - Suc a" using Suc.hyps(2) by simp
    show "Suc a \<le> k" using lt by simp
    show "k \<le> mr" "upload_response w k = Inr body" "\<not> photo_missing body"
      using Suc.prems by simp_all
    show "\<forall>j. Suc a \<le> j \<and> j < k \<longrightarrow> \<not> upload_ok (upload_response w j)"
      using Suc.prems by simp
  qed
  show ?case
    unfolding cons upload_loop_retry [OF amr bad] next1 attempts_trace_step [OF lt] emit_emit
    by simp
qed

lemma upload_loop_exhausted:
  assumes "a \<le> mr"
    and "\<forall>j. a \<le> j \<and> j < mr \<longrightarrow> \<not> upload_ok (upload_response w j)"
    and "empty_photo_response (upload_response w mr)"
  shows "upload_loop w mr [a..<Suc mr] le s = (Inl empty_photo_error, emit (attempts_trace a mr) s)"
  using assms
proof (induction "mr - a" arbitrary: a le s)
  case 0
  then have ak: "a = mr" by simp
  have cons: "[mr..<Suc mr] = mr # [Suc mr..<Suc mr]" by (simp add: upt_conv_Cons)
  show ?case
    unfolding ak cons attempts_trace_same
    using "0.prems"(3) by (intro upload_loop_last_empty) simp_all
next
  case (Suc m)
  then have amr: "a < mr" by simp
  then have cons: "[a..<Suc mr] = a # [Suc a..<Suc mr]" by (simp add: upt_conv_Cons)
  have bad: "\<not> upload_ok (upload_response w a)" using Suc.prems amr by simp
  have next1: "upload_loop w mr [Suc a..<Suc mr] le' s' =
     (Inl empty_photo_error, emit (attempts_trace (Suc a) mr) s')" for le' s'
  proof (rule Suc.hyps(1))
    show "m = mr - Suc a" using Suc.hyps(2) by simp
    show "Suc a \<le> mr" using amr by simp
    show "empty_photo_response (upload_response w mr)" using Suc.prems by simp
    show "\<forall>j. Suc a \<le> j \<and> j < mr \<longrightarrow> \<not> upload_ok (upload_response w j)"
      using Suc.prems by simp
  qed
  show ?case
    unfolding cons upload_loop_retry [OF amr bad] next1 attempts_trace_step [OF amr] emit_emit
    by simp
qed

lemma upload_image_loop:
  "upload_image w upload_url file_path mr s = upload_loop w mr [1..<Suc mr] None s"
  by (simp add: upload_image_def del: upt_Suc)

lemma empty_not_ok: "empty_photo_response r \<Longrightarrow> \<not> upload_ok r"
  by (auto simp: empty_photo_response_def upload_ok_def split: sum.splits)


section \<open>Claims about the upload step\<close>

text \<open>
  C1. In \<^verbatim>\<open>_upload_image\<close>, with attempts counted from 1: when every attempt before attempt
  \<open>k\<close> answered with a missing or empty \<^verbatim>\<open>photo\<close> and attempt \<open>k\<close> answers with a non-empty
  one, the function returns the \<^verbatim>\<open>(server, photo, hash)\<close> of attempt \<open>k\<close>, having slept
  \<open>2 ^ (j - 1)\<close> seconds after each earlier attempt \<open>j\<close> and making no attempt after \<open>k\<close>;
  when all \<^verbatim>\<open>max_retries\<close> attempts answer with a missing or empty \<^verbatim>\<open>photo\<close>, the
  \<^verbatim>\<open>ValueError\<close> is raised on the last attempt, with no sleep after it. In particular, with
  \<^verbatim>\<open>max_retries = 3\<close>, empty answers on attempts 1 and 2 and a valid one on attempt 3 give
  the payload of attempt 3 and no exception.
\<close>

theorem upload_image_empty_photo_is_transient:
  "(1 \<le> k \<and> k \<le> max_retries \<and>
      (\<forall>j. 1 \<le> j \<and> j < k \<longrightarrow> empty_photo_response (upload_response w j)) \<and>
      upload_response w k = Inr body \<and> \<not> photo_missing body \<longrightarrow>
    upload_image w upload_url file_path max_retries s =
      (Inr (dict_get body ''server'', dict_get body ''photo'', dict_get body ''hash''),
       emit (attempts_trace 1 k) s)) \<and>
   (1 \<le> max_retries \<and>
      (\<forall>j. 1 \<le> j \<and> j \<le> max_retries \<longrightarrow> empty_photo_response (upload_response w j)) \<longrightarrow>
    upload_image w upload_url file_path max_retries s =
      (Inl (ValueError ''Empty photo parameter received after all retries''),
       emit (attempts_trace 1 max_retries) s)) \<and>
   (empty_photo_response (upload_response w 1) \<and> empty_photo_response (upload_response w 2) \<and>
      upload_response w 3 = Inr body \<and> \<not> photo_missing body \<longrightarrow>
    upload_image w upload_url file_path 3 s =
      (Inr (dict_get body ''server'', dict_get body ''photo'', dict_get body ''hash''),
       emit [UploadAttempt 1, BackoffSleep 1, UploadAttempt 2, BackoffSleep 2, UploadAttempt 3] s))"
proof (intro conjI impI)
  assume h: "1 \<le> k \<and> k \<le> max_retries \<and>
      (\<forall>j. 1 \<le> j \<and> j < k \<longrightarrow> empty_photo_response (upload_response w j)) \<and>
      upload_response w k = Inr body \<and> \<not> photo_missing body"
  then have "\<forall>j. 1 \<le> j \<and> j < k \<longrightarrow> \<not> upload_ok (upload_response w j)"
    using empty_not_ok by blast
  with h show "upload_image w upload_url file_path max_retries s =
      (Inr (dict_get body ''server'', dict_get body ''photo'', dict_get body ''hash''),
       emit (attempts_trace 1 k) s)"
    unfolding upload_image_loop by (intro upload_loop_succeeds) simp_all
next
  assume h: "1 \<le> max_retries \<and>
      (\<forall>j. 1 \<le> j \<and> j \<le> max_retries \<longrightarrow> empty_photo_response (upload_response w j))"
  then have "\<forall>j. 1 \<le> j \<and> j < max_retries \<longrightarrow> \<not> upload_ok (upload_response w j)"
    using empty_not_ok by (meson less_imp_le_nat)
  with h have "upload_loop w max_retries [1..<Suc max_retries] None s =
     (Inl empty_photo_error, emit (attempts_trace 1 max_retries) s)"
    by (intro upload_loop_exhausted) simp_all
  then show "upload_image w upload_url file_path max_retries s =
      (Inl (ValueError ''Empty photo parameter received after all retries''),
       emit (attempts_trace 1 max_retries) s)"
    by (simp only: upload_image_loop empty_photo_error_def)
next
  assume h: "empty_photo_response (upload_response w 1) \<and> empty_photo_response (upload_response w 2) \<and>
      upload_response w 3 = Inr body \<and> \<not> photo_missing body"
  have "\<forall>j. 1 \<le> j \<and> j < 3 \<longrightarrow> \<not> upload_ok (upload_response w j)"
  proof (intro allI impI)
    fix j :: nat assume "1 \<le> j \<and> j < 3"
    then have "j = 1 \<or> j = 2" by auto
    with h show "\<not> upload_ok (upload_response w j)" using empty_not_ok by auto
  qed
  with h have "upload_loop w 3 [1..<Suc 3] None s =
     (Inr (dict_get body ''server'', dict_get body ''photo'', dict_get body ''hash''),
      emit (attempts_trace 1 3) s)"
    by (intro upload_loop_succeeds) simp_all
  moreover have "attempts_trace 1 3
      = [UploadAttempt 1, BackoffSleep 1, UploadAttempt 2, BackoffSleep 2, UploadAttempt 3]"
    by (simp add: attempts_trace_def upt_conv_Cons)
  ultimately show "upload_image w upload_url file_path 3 s =
      (Inr (dict_get body ''server'', dict_get body ''photo'', dict_get body ''hash''),
       emit [UploadAttempt 1, BackoffSleep 1, UploadAttempt 2, BackoffSleep 2, UploadAttempt 3] s)"
    by (simp only: upload_image_loop)
qed


text \<open>Two answers with an empty \<^verbatim>\<open>photo\<close>, then a complete one.\<close>

theorem upload_image_empty_photo_is_transient_witness:
  "empty_photo_response
     (upload_response (sample_world (\<lambda>attempt. if attempt < 3 then Inr [(''photo'', JStr [])]
        else Inr [(''server'', JInt 1), (''photo'', JStr ''[x]''), (''hash'', JStr ''h'')])
        saved_ok) 1) \<and>
   empty_photo_response
     (upload_response (sample_world (\<lambda>attempt. if attempt < 3 then Inr [(''photo'', JStr [])]
        else Inr [(''server'', JInt 1), (''photo'', JStr ''[x]''), (''hash'', JStr ''h'')])
        saved_ok) 2) \<and>
   fst (upload_image (sample_world (\<lambda>attempt. if attempt < 3 then Inr [(''photo'', JStr [])]
        else Inr [(''server'', JInt 1), (''photo'', JStr ''[x]''), (''hash'', JStr ''h'')])
        saved_ok) (JStr ''https://upload.example'') ''photo.jpg'' 3 sample_state)
     = Inr (JInt 1, JStr ''[x]'', JStr ''h'')"
  using upload_image_empty_photo_is_transient
    [where w = "sample_world (\<lambda>attempt. if attempt < 3 then Inr [(''photo'', JStr [])]
        else Inr [(''server'', JInt 1), (''photo'', JStr ''[x]''), (''hash'', JStr ''h'')])
        saved_ok"
      and body = "[(''server'', JInt 1), (''photo'', JStr ''[x]''), (''hash'', JStr ''h'')]"
      and s = sample_state and upload_url = "JStr ''https://upload.example''"
      and file_path = "''photo.jpg''" and k = 3 and max_retries = 3]
  by (simp add: sample_world_def empty_photo_response_def photo_missing_def has_key_def
      dict_get_def)


section \<open>Properties of the publishing pipeline\<close>

lemma lift_Inr: "lift f s = (Inr v, s') \<longleftrightarrow> f s = (Inr v, s')"
  by (auto simp: lift_def split: prod.splits sum.splits)

lemma lift_Inl: "lift f s = (Inl r, s') \<longleftrightarrow> (\<exists>e. r = Exc e \<and> f s = (Inl e, s'))"
  by (auto simp: lift_def split: prod.splits sum.splits)

lemma snd_lift: "snd (lift f s) = snd (f s)"
  by (simp add: lift_def split: prod.splits sum.splits)

lemma validate_state: "snd (validate_image_file c w p s) = emit [ValidateFile p] s"
  by (simp add: validate_image_file_def Let_def split: sum.splits)

lemma get_upload_url_state: "snd (get_upload_url w s) = emit [GetUploadServer] s"
  by (simp add: get_upload_url_def Let_def split: sum.splits)

lemma get_upload_url_result: "fst (get_upload_url w s) = fst (get_upload_url w s')"
  by (simp add: get_upload_url_def Let_def split: sum.splits)

lemma upload_loop_state:
  "\<exists>es. snd (upload_loop w mr xs le s) = emit es s \<and> (\<forall>e \<in> set es. is_upload_event e)"
proof (induction xs arbitrary: le s)
  case Nil
  have "snd (upload_loop w mr [] le s) = emit [] s" by (simp add: emit_def)
  then show ?case by fastforce
next
  case (Cons a xs)
  have now: "snd (upload_loop w mr (a # xs) le s) = emit [UploadAttempt a] s \<or>
     (\<exists>le'. snd (upload_loop w mr (a # xs) le s)
        = snd (upload_loop w mr xs le' (emit [UploadAttempt a, BackoffSleep (2 ^ (a - 1))] s)))"
    by (auto simp: Let_def emit_emit split: sum.splits)
  then show ?case
  proof
    assume "snd (upload_loop w mr (a # xs) le s) = emit [UploadAttempt a] s"
    then show ?thesis by fastforce
  next
    assume "\<exists>le'. snd (upload_loop w mr (a # xs) le s)
        = snd (upload_loop w mr xs le' (emit [UploadAttempt a, BackoffSleep (2 ^ (a - 1))] s))"
    then obtain le' where eq: "snd (upload_loop w mr (a # xs) le s)
        = snd (upload_loop w mr xs le' (emit [UploadAttempt a, BackoffSleep (2 ^ (a - 1))] s))"
      by blast
    from Cons.IH [of le' "emit [UploadAttempt a, BackoffSleep (2 ^ (a - 1))] s"]
    obtain es where es: "snd (upload_loop w mr xs le' (emit [UploadAttempt a, BackoffSleep (2 ^ (a - 1))] s))
        = emit es (emit [UploadAttempt a, BackoffSleep (2 ^ (a - 1))] s)"
      and up: "\<forall>e \<in> set es. is_upload_event e" by blast
    have "snd (upload_loop w mr (a # xs) le s)
        = emit ([UploadAttempt a, BackoffSleep (2 ^ (a - 1))] @ es) s"
      by (simp only: eq es emit_emit)
    moreover have "\<forall>e \<in> set ([UploadAttempt a, BackoffSleep (2 ^ (a - 1))] @ es). is_upload_event e"
      using up by simp
    ultimately show ?thesis by blast
  qed
qed

lemma upload_image_state:
  "\<exists>es. snd (upload_image w u p mr s) = emit es s \<and> (\<forall>e \<in> set es. is_upload_event e)"
  unfolding upload_image_def by (rule upload_loop_state)

lemma upload_loop_photo:
  "fst (upload_loop w mr xs le s) = Inr (server, photo, hash_value) \<Longrightarrow> truthy photo"
  by (induction xs arbitrary: le s)
    (auto simp: Let_def photo_missing_def split: sum.splits if_splits)

lemma save_state:
  "snd (post_save_wall_photo w a b c s) = emit [SaveWallPhoto a b c] s"
  by (simp add: post_save_wall_photo_def Let_def split: sum.splits)

lemma save_error_raises:
  "save_response w = Inr resp \<Longrightarrow> has_key ''error'' resp \<Longrightarrow>
   \<exists>e. fst (post_save_wall_photo w a b c s) = Inl e"
  by (simp add: post_save_wall_photo_def Let_def)

lemma wall_post_state:
  "snd (wall_post w att m s) = s \<or> snd (wall_post w att m s) = emit [WallPost att m] s"
  by (simp add: wall_post_def Let_def split: sum.splits)

lemma cleanup_trace:
  "trace (snd (cleanup_file w p s)) = trace s @ [RemoveFile p]"
  by (simp add: cleanup_file_def Let_def emit_def split: option.splits)

lemma cleanup_raises_no_Exception:
  "fst (cleanup_file w p s) = Inl r \<Longrightarrow> \<not> is_Exception r"
  by (auto simp: cleanup_file_def Let_def split: option.splits if_splits)

lemma rate_limit_trace:
  "\<exists>pre t. trace (rate_limit gap lag s) = trace s @ pre @ [RateLimitRecord t] \<and>
     (pre = [] \<or> (\<exists>d. pre = [RateLimitSleep d]))"
proof (cases "rate_limit_delay (clock s + int gap) (request_times s)")
  case None
  then have "trace (rate_limit gap lag s) = trace s @ [] @ [RateLimitRecord (clock s + int gap + int lag)]"
    by (simp add: rate_limit_def Let_def)
  then show ?thesis by blast
next
  case (Some d)
  then have "trace (rate_limit gap lag s)
      = trace s @ [RateLimitSleep d] @ [RateLimitRecord (clock s + int gap + d + int lag)]"
    by (simp add: rate_limit_def Let_def)
  then show ?thesis by blast
qed

lemma rate_limit_disk: "disk (rate_limit gap lag s) = disk s"
  by (simp add: rate_limit_def Let_def split: option.splits)



lemma save_error_not_returned:
  assumes "save_response w = Inr resp" "has_key ''error'' resp"
  shows "post_save_wall_photo w a b c s \<noteq> (Inr att, s')"
  using save_error_raises [OF assms, of a b c s] by auto

lemma try_block_save_error_skips:
  assumes "save_response w = Inr resp" "has_key ''error'' resp"
  shows "try_block ((vkapi_methods c w)\<lparr>m_wall_post := f, m_cleanup_file := g\<rparr>) p m s
     = try_block (vkapi_methods c w) p m s"
  by (simp add: try_block_def vkapi_methods_def lift_Inr save_error_not_returned [OF assms]
      split: prod.splits sum.splits)

text \<open>
  How the \<^verbatim>\<open>try\<close> block of the class can end: the result, and the effects it has added.
\<close>

lemma try_block_outcomes:
  obtains
    (validation) r where
      "try_block (vkapi_methods c w) p m s = (r, emit [ValidateFile p] s)"
      "\<forall>res. r \<noteq> Inr (Some res)" "fst (validate_image_file c w p s) \<noteq> Inr True"
      "\<forall>e. r = Inl e \<longrightarrow> is_Exception e"
  | (url) e where
      "try_block (vkapi_methods c w) p m s = (Inl e, emit [ValidateFile p, GetUploadServer] s)"
      "\<forall>url. fst (get_upload_url w s) \<noteq> Inr url" "is_Exception e"
  | (upload) r ups url r' where
      "try_block (vkapi_methods c w) p m s
         = (r, emit ([ValidateFile p, GetUploadServer] @ ups) s)"
      "\<forall>res. r \<noteq> Inr (Some res)" "\<forall>e \<in> set ups. is_upload_event e"
      "fst (get_upload_url w s) = Inr url"
      "upload_image w url p 3 (emit [ValidateFile p, GetUploadServer] s)
         = (r', emit ups (emit [ValidateFile p, GetUploadServer] s))"
      "\<forall>server photo hash_value. r' = Inr (server, photo, hash_value) \<longrightarrow> \<not> truthy photo"
      "\<forall>e. r = Inl e \<longrightarrow> is_Exception e"
  | (save) e ups url server photo hash_value where
      "try_block (vkapi_methods c w) p m s
         = (Inl e, emit ([ValidateFile p, GetUploadServer] @ ups
              @ [SaveWallPhoto server photo hash_value]) s)"
      "\<forall>e \<in> set ups. is_upload_event e"
      "fst (get_upload_url w s) = Inr url"
      "upload_image w url p 3 (emit [ValidateFile p, GetUploadServer] s)
         = (Inr (server, photo, hash_value), emit ups (emit [ValidateFile p, GetUploadServer] s))"
      "is_Exception e"
  | (later) ups url server photo hash_value att s' rest where
      "snd (try_block (vkapi_methods c w) p m s) = s'"
      "trace s' = trace s @ [ValidateFile p, GetUploadServer] @ ups
           @ [SaveWallPhoto server photo hash_value] @ rest"
      "rest = [] \<or> rest = [WallPost att m] \<or> rest = [WallPost att m, RemoveFile p]"
      "\<forall>e \<in> set ups. is_upload_event e"
      "fst (get_upload_url w s) = Inr url"
      "upload_image w url p 3 (emit [ValidateFile p, GetUploadServer] s)
         = (Inr (server, photo, hash_value), emit ups (emit [ValidateFile p, GetUploadServer] s))"
      "fst (post_save_wall_photo w server photo hash_value
              (emit ups (emit [ValidateFile p, GetUploadServer] s))) = Inr att"
proof -
  let ?s1 = "emit [ValidateFile p] s" and ?s2 = "emit [ValidateFile p, GetUploadServer] s"
  obtain r1 where v: "validate_image_file c w p s = (r1, ?s1)"
    using validate_state [of c w p s] by (cases "validate_image_file c w p s") simp
  show ?thesis
  proof (cases "r1 = Inr True")
    case False
    then have "\<exists>r. try_block (vkapi_methods c w) p m s = (r, ?s1) \<and>
        (\<forall>res. r \<noteq> Inr (Some res)) \<and> (\<forall>e. r = Inl e \<longrightarrow> is_Exception e)"
      using v by (cases r1) (auto simp: try_block_def vkapi_methods_def lift_def)
    moreover have "fst (validate_image_file c w p s) \<noteq> Inr True" using v False by simp
    ultimately show ?thesis using validation by blast
  next
    case True
    obtain r2 where g: "get_upload_url w ?s1 = (r2, ?s2)"
      using get_upload_url_state [of w ?s1]
      by (cases "get_upload_url w ?s1") (simp add: emit_def)
    have r2: "fst (get_upload_url w s) = r2"
      using g get_upload_url_result [of w s ?s1] by simp
    show ?thesis
    proof (cases r2)
      case (Inl e)
      then have "try_block (vkapi_methods c w) p m s = (Inl (Exc e), ?s2)"
        using v True g by (simp add: try_block_def vkapi_methods_def lift_def)
      moreover have "\<forall>url. fst (get_upload_url w s) \<noteq> Inr url" using r2 Inl by simp
      ultimately show ?thesis using url [of "Exc e"] by simp
    next
      case (Inr u)
      obtain ups r3 where up: "upload_image w u p 3 ?s2 = (r3, emit ups ?s2)"
        and ups: "\<forall>e \<in> set ups. is_upload_event e"
        using upload_image_state [of w u p 3 ?s2]
        by (cases "upload_image w u p 3 ?s2") auto
      have s3: "emit ups ?s2 = emit ([ValidateFile p, GetUploadServer] @ ups) s"
        by (simp add: emit_def)
      have gu: "fst (get_upload_url w s) = Inr u" using r2 Inr by simp
      show ?thesis
      proof (cases r3)
        case (Inl e)
        then have "try_block (vkapi_methods c w) p m s
            = (Inl (Exc e), emit ([ValidateFile p, GetUploadServer] @ ups) s)"
          using v True g Inr up s3 by (simp add: try_block_def vkapi_methods_def lift_def)
        then show ?thesis using upload [OF _ _ ups gu up, of "Inl (Exc e)"] Inl by simp
      next
        case triple: (Inr t)
        obtain server photo hash_value where t: "t = (server, photo, hash_value)" by (cases t)
        show ?thesis
        proof (cases "truthy photo")
          case False
          then have "try_block (vkapi_methods c w) p m s
              = (Inr None, emit ([ValidateFile p, GetUploadServer] @ ups) s)"
            using v True g Inr up s3 triple t
            by (simp add: try_block_def vkapi_methods_def lift_def)
          then show ?thesis using upload [OF _ _ ups gu up, of "Inr None"] False triple t by simp
        next
          case tr: True
          let ?s3 = "emit ups ?s2"
          let ?s4 = "emit [SaveWallPhoto server photo hash_value] ?s3"
          have up': "upload_image w u p 3 ?s2 = (Inr (server, photo, hash_value), ?s3)"
            using up triple t by simp
          obtain r4 where sv: "post_save_wall_photo w server photo hash_value ?s3 = (r4, ?s4)"
            using save_state [of w server photo hash_value ?s3]
            by (cases "post_save_wall_photo w server photo hash_value ?s3") simp
          have t4: "trace ?s4 = trace s @ [ValidateFile p, GetUploadServer] @ ups
              @ [SaveWallPhoto server photo hash_value]"
            by (simp add: emit_def)
          show ?thesis
          proof (cases r4)
            case (Inl e)
            have "?s4 = emit ([ValidateFile p, GetUploadServer] @ ups
                @ [SaveWallPhoto server photo hash_value]) s"
              by (simp add: emit_def)
            with Inl have "try_block (vkapi_methods c w) p m s
                = (Inl (Exc e), emit ([ValidateFile p, GetUploadServer] @ ups
                    @ [SaveWallPhoto server photo hash_value]) s)"
              using v True g Inr up' tr sv
              by (simp add: try_block_def vkapi_methods_def lift_def)
            then show ?thesis using save [OF _ ups gu up', of "Exc e"] by simp
          next
            case att: (Inr a)
            have sva: "fst (post_save_wall_photo w server photo hash_value ?s3) = Inr a"
              using sv att by simp
            obtain r5 s5 where wp: "wall_post w a m ?s4 = (r5, s5)" by (cases "wall_post w a m ?s4")
            then have "s5 = ?s4 \<or> s5 = emit [WallPost a m] ?s4"
              using wall_post_state [of w a m ?s4] by simp
            then have t5: "trace s5 = trace ?s4 @ [] \<or> trace s5 = trace ?s4 @ [WallPost a m]"
              by (auto simp: emit_def)
            show ?thesis
            proof (cases r5)
              case (Inl e)
              then have fin: "snd (try_block (vkapi_methods c w) p m s) = s5"
                using v True g Inr up' tr sv att wp
                by (simp add: try_block_def vkapi_methods_def lift_def)
              from t5 show ?thesis
              proof
                assume "trace s5 = trace ?s4 @ []"
                then have "trace s5 = trace s @ [ValidateFile p, GetUploadServer] @ ups
                    @ [SaveWallPhoto server photo hash_value] @ []"
                  by (simp add: emit_def)
                then show ?thesis using later [OF fin _ _ ups gu up' sva] by blast
              next
                assume "trace s5 = trace ?s4 @ [WallPost a m]"
                then have "trace s5 = trace s @ [ValidateFile p, GetUploadServer] @ ups
                    @ [SaveWallPhoto server photo hash_value] @ [WallPost a m]"
                  by (simp add: emit_def)
                then show ?thesis using later [OF fin _ _ ups gu up' sva] by blast
              qed
            next
              case res: (Inr result)
              have s5: "s5 = emit [WallPost a m] ?s4"
                using wp res by (auto simp: wall_post_def Let_def split: sum.splits if_splits)
              have fin: "snd (try_block (vkapi_methods c w) p m s) = snd (cleanup_file w p s5)"
                using v True g Inr up' tr sv att wp res
                by (simp add: try_block_def vkapi_methods_def lift_def split: prod.splits sum.splits)
              have "trace (snd (cleanup_file w p s5)) = trace s @ [ValidateFile p, GetUploadServer]
                  @ ups @ [SaveWallPhoto server photo hash_value] @ [WallPost a m, RemoveFile p]"
                by (simp add: cleanup_trace s5 emit_def)
              then show ?thesis using later [OF fin _ _ ups gu up' sva] by blast
            qed
          qed
        qed
      qed
    qed
  qed
qed


lemma try_block_save_error:
  assumes "save_response w = Inr resp" "has_key ''error'' resp"
  shows "\<exists>r es. try_block (vkapi_methods c w) p m s = (r, emit es s) \<and>
     (\<forall>res. r \<noteq> Inr (Some res)) \<and> (\<forall>e. r = Inl e \<longrightarrow> is_Exception e) \<and>
     (\<forall>e \<in> set es. \<not> is_wall_post e \<and> \<not> is_remove e)"
proof -
  have quiet: "\<not> is_wall_post e \<and> \<not> is_remove e" if "is_upload_event e" for e
    using that by (cases e) simp_all
  show ?thesis
  proof (cases rule: try_block_outcomes [of c w p m s])
    case (validation r)
    moreover have "\<forall>e \<in> set [ValidateFile p]. \<not> is_wall_post e \<and> \<not> is_remove e" by simp
    ultimately show ?thesis by blast
  next
    case (url e)
    moreover have "\<forall>e \<in> set [ValidateFile p, GetUploadServer]. \<not> is_wall_post e \<and> \<not> is_remove e"
      by simp
    ultimately show ?thesis by blast
  next
    case (upload r ups url r')
    moreover have "\<forall>e \<in> set ([ValidateFile p, GetUploadServer] @ ups).
        \<not> is_wall_post e \<and> \<not> is_remove e"
      using upload(3) quiet by simp
    ultimately show ?thesis by blast
  next
    case (save e ups url server photo hash_value)
    moreover have "\<forall>e \<in> set ([ValidateFile p, GetUploadServer] @ ups
          @ [SaveWallPhoto server photo hash_value]). \<not> is_wall_post e \<and> \<not> is_remove e"
      using save(2) quiet by simp
    ultimately show ?thesis by blast
  next
    case (later ups url server photo hash_value att s' rest)
    then show ?thesis using save_error_raises [OF assms] by (metis Inl_Inr_False)
  qed
qed

lemma rate_limit_quiet:
  "\<exists>es. trace (rate_limit gap lag s) = trace s @ es \<and>
     (\<forall>e \<in> set es. \<not> is_wall_post e \<and> \<not> is_remove e)"
proof -
  obtain pre t where tr: "trace (rate_limit gap lag s) = trace s @ pre @ [RateLimitRecord t]"
    and pre: "pre = [] \<or> (\<exists>d. pre = [RateLimitSleep d])"
    using rate_limit_trace by blast
  from pre have "\<forall>e \<in> set (pre @ [RateLimitRecord t]). \<not> is_wall_post e \<and> \<not> is_remove e"
    by auto
  with tr show ?thesis by blast
qed


lemma try_block_reaches_save:
  assumes v: "fst (validate_image_file c w p s) = Inr True"
    and g: "fst (get_upload_url w s) = Inr url"
    and u: "upload_response w 1 = Inr body" and ok: "\<not> photo_missing body"
  shows "\<exists>es. trace (snd (try_block (vkapi_methods c w) p m s))
     = trace s @ [ValidateFile p, GetUploadServer, UploadAttempt 1,
         SaveWallPhoto (dict_get body ''server'') (dict_get body ''photo'') (dict_get body ''hash'')]
       @ es"
proof -
  let ?sv = "dict_get body ''server''" and ?ph = "dict_get body ''photo''"
    and ?h = "dict_get body ''hash''"
  let ?s2 = "emit [ValidateFile p, GetUploadServer] s"
  have "upload_loop w 3 [1..<Suc 3] None ?s2 = (Inr (?sv, ?ph, ?h), emit (attempts_trace 1 1) ?s2)"
    using u ok by (intro upload_loop_succeeds) simp_all
  then have up: "upload_image w url' p 3 ?s2 = (Inr (?sv, ?ph, ?h), emit [UploadAttempt 1] ?s2)"
    for url'
    by (simp only: upload_image_loop attempts_trace_same)
  have tr: "truthy ?ph" using ok by (simp add: photo_missing_def)
  have same: "ups = [UploadAttempt 1]" if "emit [UploadAttempt 1] ?s2 = emit ups ?s2" for ups
  proof -
    from that have "trace (emit [UploadAttempt 1] ?s2) = trace (emit ups ?s2)" by simp
    then show ?thesis by (simp add: emit_def)
  qed
  show ?thesis
  proof (cases rule: try_block_outcomes [of c w p m s])
    case (validation r)
    with v show ?thesis by simp
  next
    case (url e)
    with g show ?thesis by simp
  next
    case (upload r ups url' r')
    from upload(5) up [of url'] have "r' = Inr (?sv, ?ph, ?h)" by simp
    with upload(6) tr show ?thesis by simp
  next
    case (save e ups url' server photo hash_value)
    from save(4) up [of url'] have eq: "server = ?sv" "photo = ?ph" "hash_value = ?h"
      and "emit [UploadAttempt 1] ?s2 = emit ups ?s2" by simp_all
    then have "ups = [UploadAttempt 1]" using same by blast
    with save(1) eq show ?thesis by (simp add: emit_def)
  next
    case (later ups url' server photo hash_value att s' rest)
    from later(6) up [of url'] have eq: "server = ?sv" "photo = ?ph" "hash_value = ?h"
      and "emit [UploadAttempt 1] ?s2 = emit ups ?s2" by simp_all
    then have "ups = [UploadAttempt 1]" using same by blast
    with later(1,2) eq show ?thesis by simp
  qed
qed

lemma dict_get_missing: "\<not> has_key k d \<Longrightarrow> dict_get d k = JNull"
  by (simp add: has_key_def dict_get_def)

lemmas run_defs = create_post_from_wall_def create_post_from_wall_with_def try_block_def
  vkapi_methods_def rate_limit_def rate_limit_delay_def deque_append_def validate_image_file_def
  path_exists_def stat_size_def get_upload_url_def upload_image_def post_save_wall_photo_def
  wall_post_def cleanup_file_def emit_def has_key_def getitem_def dict_get_def photo_missing_def
  new_vkapi_def sample_constants_def sample_state_def sample_world_def saved_ok_def Let_def
  new_events_def lift_def



section \<open>Claims about the publishing pipeline\<close>

text \<open>
  C5. If the response of the save step has the key \<^verbatim>\<open>error\<close>, then
  \<^verbatim>\<open>create_post_from_wall\<close> returns \<^verbatim>\<open>None\<close>, the call makes no request to \<^verbatim>\<open>wall.post\<close> and
  no \<^verbatim>\<open>os.remove\<close>, and the files on disk are the ones it found. Neither \<^verbatim>\<open>_wall_post\<close> nor
  \<^verbatim>\<open>_cleanup_file\<close> is called: the result and the final state are the same whatever these two
  methods would do.
\<close>

theorem save_error_aborts_before_post:
  assumes "save_response w = Inr resp" and "has_key ''error'' resp"
  shows "fst (create_post_from_wall c w file_path message s) = Inr None \<and>
     (\<forall>e \<in> set (new_events s (snd (create_post_from_wall c w file_path message s))).
        \<not> is_wall_post e \<and> \<not> is_remove e) \<and>
     disk (snd (create_post_from_wall c w file_path message s)) = disk s \<and>
     (\<forall>f g. create_post_from_wall_with
               ((vkapi_methods c w)\<lparr>m_wall_post := f, m_cleanup_file := g\<rparr>)
               (rl_gap w) (rl_lag w) file_path message s
            = create_post_from_wall c w file_path message s)"
proof -
  let ?s1 = "rate_limit (rl_gap w) (rl_lag w) s"
  have skip: "create_post_from_wall_with
               ((vkapi_methods c w)\<lparr>m_wall_post := f, m_cleanup_file := g\<rparr>)
               (rl_gap w) (rl_lag w) file_path message s
            = create_post_from_wall c w file_path message s" for f g
    by (simp only: create_post_from_wall_def create_post_from_wall_with_def
        try_block_save_error_skips [OF assms])
  obtain r es where tb: "try_block (vkapi_methods c w) file_path message ?s1 = (r, emit es ?s1)"
    and nores: "\<forall>res. r \<noteq> Inr (Some res)"
    and exc: "\<forall>e. r = Inl e \<longrightarrow> is_Exception e"
    and es: "\<forall>e \<in> set es. \<not> is_wall_post e \<and> \<not> is_remove e"
    using try_block_save_error [OF assms] by blast
  obtain es1 where t1: "trace ?s1 = trace s @ es1"
    and es1: "\<forall>e \<in> set es1. \<not> is_wall_post e \<and> \<not> is_remove e"
    using rate_limit_quiet by blast
  have res: "create_post_from_wall c w file_path message s = (Inr None, emit es ?s1)"
  proof (cases r)
    case (Inl e)
    with exc have "is_Exception e" by simp
    with Inl tb show ?thesis
      by (simp add: create_post_from_wall_def create_post_from_wall_with_def)
  next
    case (Inr v)
    with nores have "v = None" by (cases v) auto
    with Inr tb show ?thesis
      by (simp add: create_post_from_wall_def create_post_from_wall_with_def)
  qed
  have "new_events s (emit es ?s1) = es1 @ es"
    by (simp add: new_events_def emit_def t1)
  moreover have "disk (emit es ?s1) = disk s"
    by (simp add: emit_def rate_limit_disk)
  ultimately show ?thesis using res es es1 skip by auto
qed

text \<open>
  The upload succeeds at once and the save step answers with an error: the call stops after
  the save request and the file is still there.
\<close>

theorem save_error_aborts_before_post_witness:
  "save_response (sample_world (\<lambda>attempt. Inr [(''server'', JInt 1), (''photo'', JStr ''[x]''),
       (''hash'', JStr ''h'')]) (Inr [(''error'', JDict [(''error_msg'', JStr ''denied'')])]))
     = Inr [(''error'', JDict [(''error_msg'', JStr ''denied'')])] \<and>
   has_key ''error'' [(''error'', JDict [(''error_msg'', JStr ''denied'')])] \<and>
   fst (create_post_from_wall sample_constants
     (sample_world (\<lambda>attempt. Inr [(''server'', JInt 1), (''photo'', JStr ''[x]''),
       (''hash'', JStr ''h'')]) (Inr [(''error'', JDict [(''error_msg'', JStr ''denied'')])]))
     ''photo.jpg'' ''hello'' sample_state) = Inr None \<and>
   new_events sample_state (snd (create_post_from_wall sample_constants
     (sample_world (\<lambda>attempt. Inr [(''server'', JInt 1), (''photo'', JStr ''[x]''),
       (''hash'', JStr ''h'')]) (Inr [(''error'', JDict [(''error_msg'', JStr ''denied'')])]))
     ''photo.jpg'' ''hello'' sample_state))
     = [RateLimitRecord 0, ValidateFile ''photo.jpg'', GetUploadServer, UploadAttempt 1,
        SaveWallPhoto (JInt 1) (JStr ''[x]'') (JStr ''h'')] \<and>
   disk (snd (create_post_from_wall sample_constants
     (sample_world (\<lambda>attempt. Inr [(''server'', JInt 1), (''photo'', JStr ''[x]''),
       (''hash'', JStr ''h'')]) (Inr [(''error'', JDict [(''error_msg'', JStr ''denied'')])]))
     ''photo.jpg'' ''hello'' sample_state)) ''photo.jpg'' = Some 2048"
proof -
  let ?w = "sample_world (\<lambda>attempt. Inr [(''server'', JInt 1), (''photo'', JStr ''[x]''),
       (''hash'', JStr ''h'')]) (Inr [(''error'', JDict [(''error_msg'', JStr ''denied'')])])"
  have sv: "save_response ?w = Inr [(''error'', JDict [(''error_msg'', JStr ''denied'')])]"
    by (simp add: sample_world_def)
  have key: "has_key ''error'' [(''error'', JDict [(''error_msg'', JStr ''denied'')])]"
    by (simp add: has_key_def)
  have run: "new_events sample_state (snd (create_post_from_wall sample_constants ?w
       ''photo.jpg'' ''hello'' sample_state))
     = [RateLimitRecord 0, ValidateFile ''photo.jpg'', GetUploadServer, UploadAttempt 1,
        SaveWallPhoto (JInt 1) (JStr ''[x]'') (JStr ''h'')]"
    by (simp add: run_defs upt_conv_Cons)
  have dsk: "disk sample_state ''photo.jpg'' = Some 2048"
    by (simp add: sample_state_def new_vkapi_def)
  show ?thesis
    using sv key run dsk
      save_error_aborts_before_post [OF sv key, of sample_constants "''photo.jpg''" "''hello''"
        sample_state]
    by simp
qed




text \<open>
  C10. The success test of \<^verbatim>\<open>_upload_image\<close> reads the field \<^verbatim>\<open>photo\<close> only: at the first
  attempt whose body has a non-empty \<^verbatim>\<open>photo\<close> it returns
  \<^verbatim>\<open>(result.get("server"), photo, result.get("hash"))\<close>, where a missing \<^verbatim>\<open>server\<close> or
  \<^verbatim>\<open>hash\<close> is \<^verbatim>\<open>None\<close>; and \<^verbatim>\<open>create_post_from_wall\<close> sends these three values, \<^verbatim>\<open>None\<close>
  included, in the request of the save step.
\<close>

theorem upload_success_needs_only_photo:
  "(1 \<le> k \<and> k \<le> max_retries \<and>
      (\<forall>j. 1 \<le> j \<and> j < k \<longrightarrow> \<not> upload_ok (upload_response w j)) \<and>
      upload_response w k = Inr body \<and> has_key ''photo'' body \<and> truthy (dict_get body ''photo'')
    \<longrightarrow> fst (upload_image w upload_url file_path max_retries s)
        = Inr (dict_get body ''server'', dict_get body ''photo'', dict_get body ''hash'')) \<and>
   (\<not> has_key ''server'' body \<longrightarrow> dict_get body ''server'' = JNull) \<and>
   (\<not> has_key ''hash'' body \<longrightarrow> dict_get body ''hash'' = JNull) \<and>
   (fst (validate_image_file c w file_path (rate_limit (rl_gap w) (rl_lag w) s)) = Inr True \<and>
      fst (get_upload_url w (rate_limit (rl_gap w) (rl_lag w) s)) = Inr upload_url \<and>
      upload_response w 1 = Inr body \<and> has_key ''photo'' body \<and> truthy (dict_get body ''photo'')
    \<longrightarrow> SaveWallPhoto (dict_get body ''server'') (dict_get body ''photo'') (dict_get body ''hash'')
        \<in> set (new_events s (snd (create_post_from_wall c w file_path message s))))"
proof (intro conjI impI)
  assume h: "1 \<le> k \<and> k \<le> max_retries \<and>
      (\<forall>j. 1 \<le> j \<and> j < k \<longrightarrow> \<not> upload_ok (upload_response w j)) \<and>
      upload_response w k = Inr body \<and> has_key ''photo'' body \<and> truthy (dict_get body ''photo'')"
  then have "\<not> photo_missing body" by (simp add: photo_missing_def)
  with h have "upload_loop w max_retries [1..<Suc max_retries] None s
      = (Inr (dict_get body ''server'', dict_get body ''photo'', dict_get body ''hash''),
         emit (attempts_trace 1 k) s)"
    by (intro upload_loop_succeeds) simp_all
  then show "fst (upload_image w upload_url file_path max_retries s)
        = Inr (dict_get body ''server'', dict_get body ''photo'', dict_get body ''hash'')"
    by (simp only: upload_image_loop fst_conv)
next
  assume "\<not> has_key ''server'' body"
  then show "dict_get body ''server'' = JNull" by (rule dict_get_missing)
next
  assume "\<not> has_key ''hash'' body"
  then show "dict_get body ''hash'' = JNull" by (rule dict_get_missing)
next
  let ?s1 = "rate_limit (rl_gap w) (rl_lag w) s"
  assume h: "fst (validate_image_file c w file_path ?s1) = Inr True \<and>
      fst (get_upload_url w ?s1) = Inr upload_url \<and>
      upload_response w 1 = Inr body \<and> has_key ''photo'' body \<and> truthy (dict_get body ''photo'')"
  then have ok: "\<not> photo_missing body" by (simp add: photo_missing_def)
  obtain es where t2: "trace (snd (try_block (vkapi_methods c w) file_path message ?s1))
     = trace ?s1 @ [ValidateFile file_path, GetUploadServer, UploadAttempt 1,
         SaveWallPhoto (dict_get body ''server'') (dict_get body ''photo'') (dict_get body ''hash'')]
       @ es"
    using try_block_reaches_save [of c w file_path ?s1 upload_url body message] h ok by blast
  obtain pre t where t1: "trace ?s1 = trace s @ pre @ [RateLimitRecord t]"
    using rate_limit_trace by blast
  have "snd (create_post_from_wall c w file_path message s)
      = snd (try_block (vkapi_methods c w) file_path message ?s1)"
    by (simp add: create_post_from_wall_def create_post_from_wall_with_def
        split: prod.splits sum.splits)
  then have "new_events s (snd (create_post_from_wall c w file_path message s))
      = pre @ [RateLimitRecord t] @ [ValidateFile file_path, GetUploadServer, UploadAttempt 1,
         SaveWallPhoto (dict_get body ''server'') (dict_get body ''photo'') (dict_get body ''hash'')]
       @ es"
    by (simp add: new_events_def t2 t1)
  then show "SaveWallPhoto (dict_get body ''server'') (dict_get body ''photo'') (dict_get body ''hash'')
        \<in> set (new_events s (snd (create_post_from_wall c w file_path message s)))"
    by simp
qed


text \<open>A body with \<^verbatim>\<open>photo\<close> alone: the save request carries \<^verbatim>\<open>None\<close> for the other two.\<close>

theorem upload_success_needs_only_photo_witness:
  "has_key ''photo'' [(''photo'', JStr ''[x]'')] \<and>
   \<not> has_key ''server'' [(''photo'', JStr ''[x]'')] \<and>
   \<not> has_key ''hash'' [(''photo'', JStr ''[x]'')] \<and>
   fst (upload_image (sample_world (\<lambda>attempt. Inr [(''photo'', JStr ''[x]'')]) saved_ok)
     (JStr ''https://upload.example'') ''photo.jpg'' 3 sample_state)
     = Inr (JNull, JStr ''[x]'', JNull) \<and>
   SaveWallPhoto JNull (JStr ''[x]'') JNull
     \<in> set (new_events sample_state (snd (create_post_from_wall sample_constants
       (sample_world (\<lambda>attempt. Inr [(''photo'', JStr ''[x]'')]) saved_ok)
       ''photo.jpg'' ''hello'' sample_state)))"
  using upload_success_needs_only_photo
    [where w = "(sample_world (\<lambda>attempt. Inr [(''photo'', JStr ''[x]'')]) saved_ok)"
      and body = "[(''photo'', JStr ''[x]'')]" and k = 1 and max_retries = 3
      and s = sample_state and c = sample_constants and file_path = "''photo.jpg''"
      and message = "''hello''" and upload_url = "JStr ''https://upload.example''"]
  by (simp add: run_defs upt_conv_Cons)





section \<open>Properties of the rate limiter\<close>

lemma recorded_append: "recorded (a @ b) = recorded a @ recorded b"
  by (simp add: recorded_def)

lemma rate_limit_clock_le: "clock s \<le> clock (rate_limit gap lag s)"
  by (auto simp: rate_limit_def rate_limit_delay_def Let_def split: option.splits if_splits)

lemma rate_limit_recorded:
  "recorded (trace (rate_limit gap lag s)) = recorded (trace s) @ [clock (rate_limit gap lag s)]"
  by (auto simp: rate_limit_def Let_def recorded_def split: option.splits)

lemma rate_limit_times:
  "request_times (rate_limit gap lag s)
     = deque_append (clock (rate_limit gap lag s)) (request_times s)"
  by (auto simp: rate_limit_def Let_def split: option.splits)

lemma deque_last3: "deque_append x (last3 h) = last3 (h @ [x])"
proof (cases "length h < 3")
  case True
  then show ?thesis by (simp add: deque_append_def last3_def)
next
  case False
  then have "length h - 3 < length h" by simp
  moreover have "Suc (length h) - 3 = Suc (length h - 3)" using False by simp
  ultimately show ?thesis
    using False by (simp add: deque_append_def last3_def tl_drop drop_Suc)
qed

lemma rate_limit_spacing:
  assumes "length (request_times s) = 3"
  shows "hd (request_times s) + 1000000 \<le> clock (rate_limit gap lag s)"
  using assms
  by (auto simp: rate_limit_def rate_limit_delay_def Let_def split: option.splits if_splits)

lemma limiter_inv_step:
  assumes inv: "limiter_inv h s"
  shows "limiter_inv (h @ [clock (rate_limit gap lag s)]) (rate_limit gap lag s)"
proof -
  let ?s' = "rate_limit gap lag s" and ?t = "clock (rate_limit gap lag s)"
  from inv have rec: "recorded (trace s) = h" and rt: "request_times s = last3 h"
    and srt: "sorted h" and below: "\<forall>x \<in> set h. x \<le> clock s"
    and sp: "\<forall>i. i + 3 < length h \<longrightarrow> h ! i + 1000000 \<le> h ! (i + 3)"
    by (simp_all add: limiter_inv_def)
  have le: "clock s \<le> ?t" by (rule rate_limit_clock_le)
  have below': "\<forall>x \<in> set h. x \<le> ?t" using below le by fastforce
  have 1: "recorded (trace ?s') = h @ [?t]" by (simp add: rate_limit_recorded rec)
  have 2: "request_times ?s' = last3 (h @ [?t])" by (simp add: rate_limit_times rt deque_last3)
  have 3: "sorted (h @ [?t])" using srt below' by (simp add: sorted_append)
  have 4: "\<forall>x \<in> set (h @ [?t]). x \<le> clock ?s'" using below' by simp
  have 5: "\<forall>i. i + 3 < length (h @ [?t]) \<longrightarrow> (h @ [?t]) ! i + 1000000 \<le> (h @ [?t]) ! (i + 3)"
  proof (intro allI impI)
    fix i assume i: "i + 3 < length (h @ [?t])"
    show "(h @ [?t]) ! i + 1000000 \<le> (h @ [?t]) ! (i + 3)"
    proof (cases "i + 3 < length h")
      case True
      then show ?thesis using sp by (simp add: nth_append)
    next
      case False
      with i have eq: "i + 3 = length h" by simp
      then have len: "length (request_times s) = 3" by (simp add: rt last3_def)
      from eq have i3: "length h - 3 = i" by simp
      have "hd (request_times s) = h ! i"
        using eq by (simp add: rt last3_def hd_drop_conv_nth i3)
      with rate_limit_spacing [OF len, of gap lag] have "h ! i + 1000000 \<le> ?t" by simp
      then show ?thesis using eq by (simp add: nth_append)
    qed
  qed
  show ?thesis unfolding limiter_inv_def using 1 2 3 4 5 by blast
qed

lemma limiter_inv_new: "limiter_inv [] (new_vkapi now files)"
  by (simp add: limiter_inv_def new_vkapi_def recorded_def last3_def)

lemma limiter_inv_calls:
  "limiter_inv h s \<Longrightarrow> \<exists>h'. limiter_inv h' (rate_limit_calls calls s)"
proof (induction calls arbitrary: h s)
  case Nil
  then show ?case by (auto simp: rate_limit_calls_def)
next
  case (Cons c calls)
  obtain gap lag where c: "c = (gap, lag)" by (cases c)
  from Cons.prems have "limiter_inv (h @ [clock (rate_limit gap lag s)]) (rate_limit gap lag s)"
    by (rule limiter_inv_step)
  then have "\<exists>h'. limiter_inv h' (rate_limit_calls calls (rate_limit gap lag s))"
    by (rule Cons.IH)
  then show ?case by (simp add: rate_limit_calls_def c)
qed

lemma window_bound:
  assumes srt: "sorted h"
    and sp: "\<forall>i. i + 3 < length h \<longrightarrow> h ! i + 1000000 \<le> h ! (i + 3)"
  shows "started_within t h \<le> 3"
proof (rule ccontr)
  assume "\<not> started_within t h \<le> 3"
  let ?S = "{i. i < length h \<and> t \<le> h ! i \<and> h ! i < t + 1000000}"
  have card: "card ?S = started_within t h"
    by (simp add: started_within_def length_filter_conv_card)
  with \<open>\<not> started_within t h \<le> 3\<close> have big: "4 \<le> card ?S" by simp
  have fin: "finite ?S" by simp
  have ne: "?S \<noteq> {}"
  proof
    assume "?S = {}"
    then have "card ?S = 0" by (simp only: card.empty)
    with big show False by simp
  qed
  let ?m = "Min ?S" and ?M = "Max ?S"
  have m: "?m \<in> ?S" using fin ne by (rule Min_in)
  have M: "?M \<in> ?S" using fin ne by (rule Max_in)
  have "?S \<subseteq> {?m..?M}" using fin by auto
  then have "card ?S \<le> card {?m..?M}" by (intro card_mono) simp_all
  with big have far: "?m + 3 \<le> ?M" by simp
  from M have Mlen: "?M < length h" and Mhi: "h ! ?M < t + 1000000" by simp_all
  from m have mlo: "t \<le> h ! ?m" by simp
  have "h ! ?m + 1000000 \<le> h ! (?m + 3)" using sp far Mlen by simp
  also have "\<dots> \<le> h ! ?M" using srt far Mlen by (intro sorted_nth_mono) simp_all
  finally show False using mlo Mhi by simp
qed


section \<open>Claims about the rate limiter\<close>

text \<open>
  C2. For every sequence of sequential calls of \<^verbatim>\<open>_rate_limit\<close> on a fresh instance, whatever
  time passes before and inside each call, at most three of the recorded timestamps lie in
  any window of one second (from an instant \<open>t\<close> up to, not including, \<open>t\<close> plus one second).
  And in any state: when the deque holds three timestamps and the clock reads less than one
  second after the oldest, the call sleeps exactly 1.1 s minus the elapsed time and then
  records the current timestamp, dropping the oldest entry; otherwise it records the
  timestamp without sleeping. The clock is in microseconds and does not run backwards, and a
  sleep lasts at least as long as asked.
\<close>

theorem rate_limit_sliding_window:
  "started_within t (recorded (trace (rate_limit_calls calls (new_vkapi now files)))) \<le> 3 \<and>
   (length (request_times s) = 3 \<and> clock s + int gap - hd (request_times s) < 1000000 \<longrightarrow>
      trace (rate_limit gap lag s)
        = trace s @ [RateLimitSleep (1100000 - (clock s + int gap - hd (request_times s))),
                     RateLimitRecord (hd (request_times s) + 1100000 + int lag)] \<and>
      request_times (rate_limit gap lag s)
        = tl (request_times s) @ [hd (request_times s) + 1100000 + int lag]) \<and>
   (\<not> (length (request_times s) = 3 \<and> clock s + int gap - hd (request_times s) < 1000000) \<longrightarrow>
      trace (rate_limit gap lag s) = trace s @ [RateLimitRecord (clock s + int gap + int lag)])"
proof (intro conjI impI)
  obtain h where "limiter_inv h (rate_limit_calls calls (new_vkapi now files))"
    using limiter_inv_calls [OF limiter_inv_new] by blast
  then have "recorded (trace (rate_limit_calls calls (new_vkapi now files))) = h" "sorted h"
    "\<forall>i. i + 3 < length h \<longrightarrow> h ! i + 1000000 \<le> h ! (i + 3)"
    by (simp_all add: limiter_inv_def)
  then show "started_within t (recorded (trace (rate_limit_calls calls (new_vkapi now files)))) \<le> 3"
    using window_bound by simp
next
  assume h: "length (request_times s) = 3 \<and> clock s + int gap - hd (request_times s) < 1000000"
  then show "trace (rate_limit gap lag s)
        = trace s @ [RateLimitSleep (1100000 - (clock s + int gap - hd (request_times s))),
                     RateLimitRecord (hd (request_times s) + 1100000 + int lag)]"
    by (simp add: rate_limit_def rate_limit_delay_def Let_def)
  from h show "request_times (rate_limit gap lag s)
        = tl (request_times s) @ [hd (request_times s) + 1100000 + int lag]"
    by (simp add: rate_limit_def rate_limit_delay_def deque_append_def Let_def)
next
  assume "\<not> (length (request_times s) = 3 \<and> clock s + int gap - hd (request_times s) < 1000000)"
  then show "trace (rate_limit gap lag s) = trace s @ [RateLimitRecord (clock s + int gap + int lag)]"
    by (auto simp: rate_limit_def rate_limit_delay_def Let_def)
qed


text \<open>
  Four calls in the same instant: the fourth sleeps 1.1 s and is recorded 5 microseconds
  after waking.
\<close>

theorem rate_limit_sliding_window_witness:
  "recorded (trace (rate_limit_calls [(0, 0), (0, 0), (0, 0), (0, 5)] (new_vkapi 0 Map.empty)))
     = [0, 0, 0, 1100005] \<and>
   started_within 0
     (recorded (trace (rate_limit_calls [(0, 0), (0, 0), (0, 0), (0, 5)] (new_vkapi 0 Map.empty))))
     \<le> 3"
proof -
  have run: "recorded (trace (rate_limit_calls [(0, 0), (0, 0), (0, 0), (0, 5)]
       (new_vkapi 0 Map.empty))) = [0, 0, 0, 1100005]"
    by (simp add: rate_limit_calls_def rate_limit_def rate_limit_delay_def deque_append_def
        new_vkapi_def recorded_def Let_def)
  show ?thesis
    using run rate_limit_sliding_window [where t = 0
        and calls = "[(0, 0), (0, 0), (0, 0), (0, 5)]" and now = 0 and files = Map.empty]
    by simp
qed


end
